theory Spec2Isabelle
  imports Main
begin

section \<open>Strings and characters\<close>

text \<open>
  A Python \<open>str\<close> is a sequence of Unicode code points. A code point is modelled as a
  natural number and a string as a list of them, so that the non-ASCII text this program
  handles (column headers, full-width digits, the ideographic space) is represented as
  the program sees it. \<open>str\<close> embeds an ASCII literal.
\<close>

type_synonym pychar = nat
type_synonym pystr = "pychar list"

definition str :: "string \<Rightarrow> pystr" where
  "str s = map of_char s"

definition hyphen :: pychar where "hyphen = 0x2D"
definition slash :: pychar where "slash = 0x2F"
definition comma :: pychar where "comma = 0x2C"
definition LF :: pychar where "LF = 0x0A"
definition CR :: pychar where "CR = 0x0D"

section \<open>Errors\<close>

text \<open>
  The exceptions that can leave a function of the program. \<open>except Exception\<close> in
  \<open>extract_text_from_pdf\<close> is the only handler of the source; everything else propagates.
\<close>

datatype error =
  DownloadError | PdfError | RasterizeError | TesseractError | IndexError | UnicodeEncodeError

definition bind_err :: "error + 'a \<Rightarrow> ('a \<Rightarrow> error + 'b) \<Rightarrow> error + 'b" where
  "bind_err r f = (case r of Inl e \<Rightarrow> Inl e | Inr v \<Rightarrow> f v)"

section \<open>The output schema\<close>

text \<open>
  \<open>CSV_COLUMNS\<close>, the 44 header labels of the source in order, each label as its code
  points. Index 0 is the label "month-day", index 15 "debit transaction amount",
  index 33 "counterparty code", index 34 "counterparty name".
\<close>

definition CSV_COLUMNS :: "pystr list" where
  "CSV_COLUMNS = [
   [0x6708, 0x65E5],
   [0x4F1D, 0x7968, 0x756A, 0x53F7],
   [0x8A3C, 0x6191, 0x756A, 0x53F7],
   [0x501F, 0x65B9, 0x79D1, 0x76EE, 0x30B3, 0x30FC, 0x30C9],
   [0x501F, 0x65B9, 0x79D1, 0x76EE, 0x540D],
   [0x501F, 0x65B9, 0x88DC, 0x52A9, 0x30B3, 0x30FC, 0x30C9],
   [0x501F, 0x65B9, 0x53E3, 0x5EA7, 0x540D],
   [0x501F, 0x65B9, 0x90E8, 0x9580, 0x30B3, 0x30FC, 0x30C9],
   [0x501F, 0x65B9, 0x90E8, 0x9580, 0x540D],
   [0x501F, 0x65B9, 0x8AB2, 0x7A0E, 0x533A, 0x5206],
   [0x501F, 0x65B9, 0x4E8B, 0x696D, 0x533A, 0x5206],
   [0x501F, 0x65B9, 0x6D88, 0x8CBB, 0x7A0E, 0x984D, 0x81EA, 0x52D5, 0x8A08, 0x7B97, 0x304B, 0x5426, 0x304B],
   [0x501F, 0x65B9, 0x8EFD, 0x6E1B, 0x7A0E, 0x7387, 0x304B, 0x5426, 0x304B],
   [0x501F, 0x65B9, 0x7A0E, 0x7387],
   [0x501F, 0x65B9, 0x63A7, 0x9664, 0x5272, 0x5408],
   [0x501F, 0x65B9, 0x53D6, 0x5F15, 0x91D1, 0x984D],
   [0x501F, 0x65B9, 0x6D88, 0x8CBB, 0x7A0E, 0x7B49],
   [0x501F, 0x65B9, 0x7A0E, 0x629C, 0x304D, 0x91D1, 0x984D],
   [0x8CB8, 0x65B9, 0x79D1, 0x76EE, 0x30B3, 0x30FC, 0x30C9],
   [0x8CB8, 0x65B9, 0x79D1, 0x76EE, 0x540D],
   [0x8CB8, 0x65B9, 0x88DC, 0x52A9, 0x30B3, 0x30FC, 0x30C9],
   [0x8CB8, 0x65B9, 0x53E3, 0x5EA7, 0x540D],
   [0x8CB8, 0x65B9, 0x90E8, 0x9580, 0x30B3, 0x30FC, 0x30C9],
   [0x8CB8, 0x65B9, 0x90E8, 0x9580, 0x540D],
   [0x8CB8, 0x65B9, 0x8AB2, 0x7A0E, 0x533A, 0x5206],
   [0x8CB8, 0x65B9, 0x4E8B, 0x696D, 0x533A, 0x5206],
   [0x8CB8, 0x65B9, 0x6D88, 0x8CBB, 0x7A0E, 0x984D, 0x81EA, 0x52D5, 0x8A08, 0x7B97, 0x304B, 0x5426, 0x304B],
   [0x8CB8, 0x65B9, 0x8EFD, 0x6E1B, 0x7A0E, 0x7387, 0x304B, 0x5426, 0x304B],
   [0x8CB8, 0x65B9, 0x7A0E, 0x7387],
   [0x8CB8, 0x65B9, 0x63A7, 0x9664, 0x5272, 0x5408],
   [0x8CB8, 0x65B9, 0x53D6, 0x5F15, 0x91D1, 0x984D],
   [0x8CB8, 0x65B9, 0x6D88, 0x8CBB, 0x7A0E, 0x7B49],
   [0x8CB8, 0x65B9, 0x7A0E, 0x629C, 0x304D, 0x91D1, 0x984D],
   [0x53D6, 0x5F15, 0x5148, 0x30B3, 0x30FC, 0x30C9],
   [0x53D6, 0x5F15, 0x5148, 0x540D],
   [0x53D6, 0x5F15, 0x5148, 0x306E, 0x4E8B, 0x696D, 0x8005, 0x767B, 0x9332, 0x756A, 0x53F7],
   [0x5143, 0x5E33, 0x6458, 0x8981],
   [0x5B9F, 0x969B, 0x306E, 0x4ED5, 0x5165, 0x308C, 0x5E74, 0x6708, 0x65E5, 0x8868, 0x793A, 0x533A, 0x5206],
   [0x5B9F, 0x969B, 0x306E, 0x4ED5, 0x5165, 0x308C, 0x5E74, 0x6708, 0x65E5, 0xFF11],
   [0x5B9F, 0x969B, 0x306E, 0x4ED5, 0x5165, 0x308C, 0x5E74, 0x6708, 0x65E5, 0xFF12],
   [0x53CE, 0x652F, 0x533A, 0x5206, 0x30B3, 0x30FC, 0x30C9],
   [0x53CE, 0x652F, 0x533A, 0x5206, 0x540D],
   [0x5185, 0x8A33, 0x533A, 0x5206, 0x30B3, 0x30FC, 0x30C9],
   [0x5185, 0x8A33, 0x533A, 0x5206, 0x540D]]"

text \<open>The label the source's comment gives for the counterparty cell.\<close>

definition counterparty_name_label :: pystr where
  "counterparty_name_label = [0x53D6, 0x5F15, 0x5148, 0x540D]"

definition counterparty_code_label :: pystr where
  "counterparty_code_label = [0x53D6, 0x5F15, 0x5148, 0x30B3, 0x30FC, 0x30C9]"

definition date_label :: pystr where
  "date_label = [0x6708, 0x65E5]"

definition debit_amount_label :: pystr where
  "debit_amount_label = [0x501F, 0x65B9, 0x53D6, 0x5F15, 0x91D1, 0x984D]"

section \<open>RowBuilder\<close>

text \<open>
  \<open>row[i] = v\<close> raises \<open>IndexError\<close> outside the list; inside it updates the cell.
\<close>

definition setitem :: "'a list \<Rightarrow> nat \<Rightarrow> 'a \<Rightarrow> error + 'a list" where
  "setitem xs i v = (if i < length xs then Inr (xs[i := v]) else Inl IndexError)"

text \<open>
  \<open>s.replace(old, new)\<close> for a one-character \<open>old\<close> and \<open>new\<close>, and
  \<open>s.replace(old, '')\<close> for a one-character \<open>old\<close>.
\<close>

definition replace_char :: "pychar \<Rightarrow> pychar \<Rightarrow> pystr \<Rightarrow> pystr" where
  "replace_char old new s = map (\<lambda>c. if c = old then new else c) s"

definition remove_char :: "pychar \<Rightarrow> pystr \<Rightarrow> pystr" where
  "remove_char old s = filter (\<lambda>c. c \<noteq> old) s"

definition build_csv_row :: "pystr \<Rightarrow> pystr \<Rightarrow> pystr \<Rightarrow> error + pystr list" where
  "build_csv_row date amount partner =
     (let row = replicate (length CSV_COLUMNS) [] in
      bind_err (setitem row 0 (if date \<noteq> [] then replace_char hyphen slash date else []))
        (\<lambda>row. bind_err (setitem row 15 amount)
          (\<lambda>row. setitem row 33 partner)))"

section \<open>Character classes of the Python runtime\<close>

text \<open>
  \<open>\d\<close> in a \<open>str\<close> pattern matches the code points of Unicode category Nd. They
  come in runs of ten, one run per digit system; \<open>Nd_zeros\<close> lists the digit zero of each
  run (Unicode 14.0, the table of CPython 3.11). The first entry is ASCII \<open>0\<close>, and
  \<open>0xFF10\<close> is the full-width zero.
\<close>

definition Nd_zeros :: "pychar list" where
  "Nd_zeros =
    [0x30, 0x660, 0x6F0, 0x7C0, 0x966, 0x9E6, 0xA66, 0xAE6,
     0xB66, 0xBE6, 0xC66, 0xCE6, 0xD66, 0xDE6, 0xE50, 0xED0,
     0xF20, 0x1040, 0x1090, 0x17E0, 0x1810, 0x1946, 0x19D0, 0x1A80,
     0x1A90, 0x1B50, 0x1BB0, 0x1C40, 0x1C50, 0xA620, 0xA8D0, 0xA900,
     0xA9D0, 0xA9F0, 0xAA50, 0xABF0, 0xFF10, 0x104A0, 0x10D30, 0x11066,
     0x110F0, 0x11136, 0x111D0, 0x112F0, 0x11450, 0x114D0, 0x11650, 0x116C0,
     0x11730, 0x118E0, 0x11950, 0x11C50, 0x11D50, 0x11DA0, 0x16A60, 0x16AC0,
     0x16B50, 0x1D7CE, 0x1D7D8, 0x1D7E2, 0x1D7EC, 0x1D7F6, 0x1E140, 0x1E2F0,
     0x1E950, 0x1FBF0]"

definition unicode_decimal :: "pychar \<Rightarrow> bool" where
  "unicode_decimal c = list_ex (\<lambda>z. z \<le> c \<and> c < z + 10) Nd_zeros"

text \<open>\<open>str.isspace\<close> on one character: what \<open>str.strip()\<close> removes.\<close>

definition isspace :: "pychar \<Rightarrow> bool" where
  "isspace c =
     ((0x09 \<le> c \<and> c \<le> 0x0D) \<or> (0x1C \<le> c \<and> c \<le> 0x20) \<or> c = 0x85 \<or> c = 0xA0 \<or>
      c = 0x1680 \<or> (0x2000 \<le> c \<and> c \<le> 0x200A) \<or> c = 0x2028 \<or> c = 0x2029 \<or>
      c = 0x202F \<or> c = 0x205F \<or> c = 0x3000)"

text \<open>The line boundaries of \<open>str.splitlines()\<close>.\<close>

definition is_linebreak :: "pychar \<Rightarrow> bool" where
  "is_linebreak c =
     ((0x0A \<le> c \<and> c \<le> 0x0D) \<or> (0x1C \<le> c \<and> c \<le> 0x1E) \<or> c = 0x85 \<or>
      c = 0x2028 \<or> c = 0x2029)"

definition strip :: "pystr \<Rightarrow> pystr" where
  "strip s = rev (dropWhile isspace (rev (dropWhile isspace s)))"

text \<open>
  \<open>str.splitlines()\<close>: the text is cut at every line boundary, \<open>\r\n\<close> counting as
  one, the boundaries are dropped, and a boundary at the very end opens no further line.
  \<open>cur\<close> is the line read so far.
\<close>

fun splitlines_from :: "pystr \<Rightarrow> pystr \<Rightarrow> pystr list" where
  "splitlines_from cur [] = (if cur = [] then [] else [cur])"
| "splitlines_from cur [c] = (if is_linebreak c then [cur] else [cur @ [c]])"
| "splitlines_from cur (c # d # cs) =
     (if is_linebreak c then
        (if c = CR \<and> d = LF then cur # splitlines_from [] cs
         else cur # splitlines_from [] (d # cs))
      else splitlines_from (cur @ [c]) (d # cs))"

definition splitlines :: "pystr \<Rightarrow> pystr list" where
  "splitlines s = splitlines_from [] s"

section \<open>Regular expressions\<close>

text \<open>
  The fragment of Python's \<open>re\<close> syntax that the two patterns of \<open>parse_info\<close>
  use: a literal character, \<open>\d\<close>, a character set \<open>[...]\<close> of literals and
  ranges, concatenation, and the greedy repetitions \<open>{m,n}\<close> (upper bound
  \<open>Some n\<close>) and \<open>*\<close> (lower bound 0, upper bound \<open>None\<close>).
\<close>

datatype item = Chr pychar | Range pychar pychar

datatype regex =
    Lit pychar
  | Digit
  | Set "item list"
  | Seq regex regex
  | Repeat regex nat "nat option"

fun in_item :: "item \<Rightarrow> pychar \<Rightarrow> bool" where
  "in_item (Chr a) c = (c = a)"
| "in_item (Range a b) c = (a \<le> c \<and> c \<le> b)"

text \<open>
  A backtracking matcher. \<open>matches r s\<close> lists, for every way \<open>r\<close> can match a
  prefix of \<open>s\<close>, the rest of \<open>s\<close> after that prefix, in the order in which the
  engine tries them: the head of the list is the match \<open>re\<close> reports at this position,
  and the empty list means no match here. A greedy repetition tries one more iteration
  before it tries to stop. For \<open>*\<close> the iteration count is bounded by the length of the
  text, which no repetition of a body that consumes a character can exceed.
\<close>

fun repeat :: "(pystr \<Rightarrow> pystr list) \<Rightarrow> nat \<Rightarrow> nat \<Rightarrow> pystr \<Rightarrow> pystr list" where
  "repeat f lo 0 s = (if lo = 0 then [s] else [])"
| "repeat f lo (Suc hi) s =
     concat (map (repeat f (lo - 1) hi) (f s)) @ (if lo = 0 then [s] else [])"

primrec matches :: "regex \<Rightarrow> pystr \<Rightarrow> pystr list" where
  "matches (Lit a) = (\<lambda>s. case s of [] \<Rightarrow> [] | c # cs \<Rightarrow> if c = a then [cs] else [])"
| "matches Digit = (\<lambda>s. case s of [] \<Rightarrow> [] | c # cs \<Rightarrow> if unicode_decimal c then [cs] else [])"
| "matches (Set items) =
     (\<lambda>s. case s of [] \<Rightarrow> [] | c # cs \<Rightarrow> if list_ex (\<lambda>i. in_item i c) items then [cs] else [])"
| "matches (Seq r1 r2) = (\<lambda>s. concat (map (matches r2) (matches r1 s)))"
| "matches (Repeat r lo hi) =
     (\<lambda>s. repeat (matches r) lo (case hi of Some n \<Rightarrow> n | None \<Rightarrow> lo + length s) s)"

text \<open>
  \<open>re.search\<close>: the first start position, from the left, at which the pattern matches;
  the result is the start position and the matched text (\<open>group(0)\<close>), or \<open>None\<close>.
\<close>

fun search_from :: "regex \<Rightarrow> nat \<Rightarrow> pystr \<Rightarrow> (nat \<times> pystr) option" where
  "search_from r i [] = (case matches r [] of [] \<Rightarrow> None | rest # _ \<Rightarrow> Some (i, []))"
| "search_from r i (c # cs) =
     (case matches r (c # cs) of
        [] \<Rightarrow> search_from r (Suc i) cs
      | rest # _ \<Rightarrow> Some (i, take (length (c # cs) - length rest) (c # cs)))"

definition search :: "regex \<Rightarrow> pystr \<Rightarrow> (nat \<times> pystr) option" where
  "search r text = search_from r 0 text"

definition group0 :: "nat \<times> pystr \<Rightarrow> pystr" where
  "group0 m = snd m"

section \<open>FieldParser\<close>

text \<open>\<open>\d{4}[/-]\d{1,2}[/-]\d{1,2}\<close>\<close>

definition date_sep :: regex where
  "date_sep = Set [Chr slash, Chr hyphen]"

definition date_re :: regex where
  "date_re =
     Seq (Repeat Digit 4 (Some 4))
       (Seq date_sep
         (Seq (Repeat Digit 1 (Some 2))
           (Seq date_sep (Repeat Digit 1 (Some 2)))))"

text \<open>\<open>[0-9]{1,3}(?:,[0-9]{3})*\<close>\<close>

definition ascii_digit :: regex where
  "ascii_digit = Set [Range 0x30 0x39]"

definition comma_group :: regex where
  "comma_group = Seq (Lit comma) (Repeat ascii_digit 3 (Some 3))"

definition amount_re :: regex where
  "amount_re = Seq (Repeat ascii_digit 1 (Some 3)) (Repeat comma_group 0 None)"

text \<open>The loop over the lines: the first line that is not empty once stripped.\<close>

fun first_nonblank :: "pystr list \<Rightarrow> pystr" where
  "first_nonblank [] = []"
| "first_nonblank (line # lines) =
     (let line = strip line in if line \<noteq> [] then line else first_nonblank lines)"

definition parse_info :: "pystr \<Rightarrow> pystr \<times> pystr \<times> pystr" where
  "parse_info text =
     (let date_match = search date_re text;
          amount_match = search amount_re text;
          name = first_nonblank (splitlines text);
          date = (case date_match of Some m \<Rightarrow> group0 m | None \<Rightarrow> []);
          amount = (case amount_match of Some m \<Rightarrow> remove_char comma (group0 m) | None \<Rightarrow> [])
      in (date, amount, name))"

definition parsed_date :: "pystr \<times> pystr \<times> pystr \<Rightarrow> pystr" where
  "parsed_date f = fst f"

definition parsed_amount :: "pystr \<times> pystr \<times> pystr \<Rightarrow> pystr" where
  "parsed_amount f = fst (snd f)"

definition parsed_name :: "pystr \<times> pystr \<times> pystr \<Rightarrow> pystr" where
  "parsed_name f = snd (snd f)"

section \<open>External collaborators\<close>

text \<open>
  What the libraries do with one file of the Drive folder. \<open>page.extract_text()\<close>
  returns a string, returns \<open>None\<close>, or raises; \<open>pdfplumber.open\<close> raises or gives
  the pages; \<open>download_pdf\<close> returns or raises; \<open>convert_from_path\<close> raises
  (\<open>None\<close>) or gives the page images.
\<close>

datatype page = PageText pystr | PageNone | PageRaises

datatype pdf = OpenRaises | Pages "page list"

record 'img document =
  download_ok :: bool
  text_layer :: pdf
  page_images :: "'img list option"

text \<open>
  \<open>ImageOps.grayscale\<close> gives the pixel intensities of an image, and
  \<open>pytesseract.image_to_string\<close> the text of a binarized image, or raises (\<open>None\<close>).
\<close>

record 'img tools =
  grayscale :: "'img \<Rightarrow> nat list"
  image_to_string :: "nat list \<Rightarrow> pystr option"

text \<open>The calls of the pipeline, in the order they are made.\<close>

datatype call = Download | DirectExtract | Rasterize | Preprocess | Recognize

section \<open>TextExtractor\<close>

text \<open>
  The body of the \<open>try\<close>: the text read so far, and the exception that ended the
  loop, if any.
\<close>

fun read_pages :: "pystr \<Rightarrow> page list \<Rightarrow> pystr \<times> error option" where
  "read_pages text [] = (text, None)"
| "read_pages text (PageText page_text # ps) =
     read_pages (if page_text \<noteq> [] then text @ page_text @ [LF] else text) ps"
| "read_pages text (PageNone # ps) = read_pages text ps"
| "read_pages text (PageRaises # ps) = (text, Some PdfError)"

definition try_extract :: "pdf \<Rightarrow> pystr \<times> error option" where
  "try_extract p = (case p of OpenRaises \<Rightarrow> ([], Some PdfError) | Pages ps \<Rightarrow> read_pages [] ps)"

text \<open>\<open>except Exception: pass\<close>, then \<open>return text\<close>.\<close>

definition extract_text_from_pdf :: "pdf \<Rightarrow> pystr" where
  "extract_text_from_pdf p = fst (try_extract p)"

section \<open>Rasterizer, ImagePreprocessor, OcrEngine\<close>

definition threshold :: "nat \<Rightarrow> nat" where
  "threshold x = (if x < 128 then 0 else 255)"

definition pdf_to_images ::
  "'img tools \<Rightarrow> 'img document \<Rightarrow> call list \<times> (error + nat list list)" where
  "pdf_to_images t d =
     (case page_images d of
        None \<Rightarrow> ([Rasterize], Inl RasterizeError)
      | Some images \<Rightarrow>
          (Rasterize # map (\<lambda>img. Preprocess) images,
           Inr (map (\<lambda>img. map threshold (grayscale t img)) images)))"

fun ocr_loop :: "'img tools \<Rightarrow> pystr \<Rightarrow> nat list list \<Rightarrow> call list \<times> (error + pystr)" where
  "ocr_loop t text [] = ([], Inr text)"
| "ocr_loop t text (img # imgs) =
     (case image_to_string t img of
        None \<Rightarrow> ([Recognize], Inl TesseractError)
      | Some s \<Rightarrow> (case ocr_loop t (text @ s @ [LF]) imgs of (cs, r) \<Rightarrow> (Recognize # cs, r)))"

definition ocr_images :: "'img tools \<Rightarrow> nat list list \<Rightarrow> call list \<times> (error + pystr)" where
  "ocr_images t images = ocr_loop t [] images"

section \<open>PipelineOrchestrator\<close>

text \<open>The last two statements of the loop body: parse, build the row.\<close>

definition row_of_text :: "pystr \<Rightarrow> error + pystr list" where
  "row_of_text text = (case parse_info text of (date, amount, partner) \<Rightarrow> build_csv_row date amount partner)"

text \<open>
  The body of the loop of \<open>process_pdfs\<close> for one file: the calls made and the row to
  write, or the exception that leaves the body.
\<close>

definition process_file ::
  "'img tools \<Rightarrow> 'img document \<Rightarrow> call list \<times> (error + pystr list)" where
  "process_file t d =
     (if \<not> download_ok d then ([Download], Inl DownloadError)
      else
        let text = extract_text_from_pdf (text_layer d) in
        if strip text = [] then
          (case pdf_to_images t d of
             (c1, Inl e) \<Rightarrow> ([Download, DirectExtract] @ c1, Inl e)
           | (c1, Inr images) \<Rightarrow>
               (case ocr_images t images of
                  (c2, Inl e) \<Rightarrow> ([Download, DirectExtract] @ c1 @ c2, Inl e)
                | (c2, Inr text) \<Rightarrow> ([Download, DirectExtract] @ c1 @ c2, row_of_text text)))
        else ([Download, DirectExtract], row_of_text text))"

text \<open>
  \<open>writer.writerow\<close> on the output file, which is opened with the encoding
  \<open>utf-8-sig\<close>: the row is written as one line after the rows written before, unless a
  cell holds a surrogate code point, which this encoding refuses; then
  \<open>UnicodeEncodeError\<close> is raised and nothing of the row is written.
\<close>

definition is_surrogate :: "pychar \<Rightarrow> bool" where
  "is_surrogate c = (0xD800 \<le> c \<and> c \<le> 0xDFFF)"

definition writerow :: "pystr list list \<Rightarrow> pystr list \<Rightarrow> error + pystr list list" where
  "writerow out row =
     (if list_ex (list_ex is_surrogate) row then Inl UnicodeEncodeError else Inr (out @ [row]))"

text \<open>
  The state of \<open>process_pdfs\<close>: the rows written to the output file and the calls made.
  No statement of the source catches an exception of the loop body, so the first one
  ends the loop and leaves \<open>process_pdfs\<close>; the file keeps the rows written before.
\<close>

record run =
  rows :: "pystr list list"
  calls :: "call list"
  raised :: "error option"

fun process_loop :: "'img tools \<Rightarrow> 'img document list \<Rightarrow> run \<Rightarrow> run" where
  "process_loop t [] st = st"
| "process_loop t (file # files) st =
     (case process_file t file of
        (cs, Inl e) \<Rightarrow> st\<lparr>calls := calls st @ cs, raised := Some e\<rparr>
      | (cs, Inr row) \<Rightarrow>
          (case writerow (rows st) row of
             Inl e \<Rightarrow> st\<lparr>calls := calls st @ cs, raised := Some e\<rparr>
           | Inr out \<Rightarrow> process_loop t files (st\<lparr>rows := out, calls := calls st @ cs\<rparr>)))"

definition process_pdfs :: "'img tools \<Rightarrow> 'img document list \<Rightarrow> run" where
  "process_pdfs t files =
     (case writerow [] CSV_COLUMNS of
        Inl e \<Rightarrow> \<lparr>rows = [], calls = [], raised = Some e\<rparr>
      | Inr out \<Rightarrow> process_loop t files \<lparr>rows = out, calls = [], raised = None\<rparr>)"

section \<open>Auxiliary notions for the statements\<close>

text \<open>
  What one page adds to the text of \<open>extract_text_from_pdf\<close>, and the pages that are
  read before the reader fails (all of them if it does not).
\<close>

definition page_text :: "page \<Rightarrow> pystr" where
  "page_text p = (case p of PageText t \<Rightarrow> (if t \<noteq> [] then t @ [LF] else []) | _ \<Rightarrow> [])"

text \<open>
  The image handed to the recognizer: the intensities of the page image, each below 128
  turned to 0 (black) and every other to 255 (white).
\<close>

definition binarize :: "'img tools \<Rightarrow> 'img \<Rightarrow> nat list" where
  "binarize t img = map (\<lambda>x. if x < 128 then 0 else 255) (grayscale t img)"

text \<open>The body of the loop ends for this file with its row written.\<close>

definition written :: "'img tools \<Rightarrow> 'img document \<Rightarrow> bool" where
  "written t f =
     (case snd (process_file t f) of
        Inl e \<Rightarrow> False
      | Inr row \<Rightarrow> \<not> list_ex (list_ex is_surrogate) row)"

definition pages_before_failure :: "pdf \<Rightarrow> page list" where
  "pages_before_failure p =
     (case p of OpenRaises \<Rightarrow> [] | Pages ps \<Rightarrow> takeWhile (\<lambda>q. q \<noteq> PageRaises) ps)"

section \<open>The grammars of the specification\<close>

text \<open>
  The forms of the field parser as the specification words them, to be compared with what
  the patterns of \<open>parse_info\<close> match. A grouped-digit numeral is 1 to 3 leading
  digits, then zero or more groups of a comma and exactly 3 digits: \<open>leading k m\<close>
  says so for \<open>k\<close> leading digits.
\<close>

definition is_ascii_digit :: "pychar \<Rightarrow> bool" where
  "is_ascii_digit c = (0x30 \<le> c \<and> c \<le> 0x39)"

fun comma_groups :: "pystr \<Rightarrow> bool" where
  "comma_groups [] = True"
| "comma_groups (c # d1 # d2 # d3 # rest) =
     (c = comma \<and> is_ascii_digit d1 \<and> is_ascii_digit d2 \<and> is_ascii_digit d3 \<and> comma_groups rest)"
| "comma_groups _ = False"

definition leading :: "nat \<Rightarrow> pystr \<Rightarrow> bool" where
  "leading k m = (k \<le> length m \<and> list_all is_ascii_digit (take k m) \<and> comma_groups (drop k m))"

definition grouped_numeral :: "pystr \<Rightarrow> bool" where
  "grouped_numeral m = (leading 1 m \<or> leading 2 m \<or> leading 3 m)"

text \<open>A text begins with a group: a comma and three digits.\<close>

definition group_follows :: "pystr \<Rightarrow> bool" where
  "group_follows rest =
     (4 \<le> length rest \<and> rest ! 0 = comma \<and> is_ascii_digit (rest ! 1) \<and>
      is_ascii_digit (rest ! 2) \<and> is_ascii_digit (rest ! 3))"

text \<open>
  \<open>first_match P text pre m\<close>: \<open>m\<close> is the first substring of \<open>text\<close> of form
  \<open>P\<close>, and \<open>pre\<close> is what precedes it. No substring of form \<open>P\<close> starts further
  left, and none that starts at the same place is longer.
\<close>

definition first_match :: "(pystr \<Rightarrow> bool) \<Rightarrow> pystr \<Rightarrow> pystr \<Rightarrow> pystr \<Rightarrow> bool" where
  "first_match P text pre m =
     ((\<exists>post. text = pre @ m @ post) \<and> P m \<and>
      (\<forall>pre' m' post'. text = pre' @ m' @ post' \<and> P m' \<longrightarrow>
         length pre < length pre' \<or> (length pre' = length pre \<and> length m' \<le> length m)))"

text \<open>
  A numeric date is four digits, a separator, one or two digits, a separator, one or
  two digits, with \<open>/\<close> and \<open>-\<close> as separators: \<open>date_shape dg a b m\<close> says so for
  the digits \<open>dg\<close>, \<open>a\<close> month digits and \<open>b\<close> day digits. \<open>date_form\<close> is the
  form with the digits 0 to 9, the digits of the grouped-digit numeral;
  \<open>unicode_date_form\<close> is the form with every decimal digit of Unicode.
\<close>

definition is_date_sep :: "pychar \<Rightarrow> bool" where
  "is_date_sep c = (c = slash \<or> c = hyphen)"

definition date_shape :: "(pychar \<Rightarrow> bool) \<Rightarrow> nat \<Rightarrow> nat \<Rightarrow> pystr \<Rightarrow> bool" where
  "date_shape dg a b m =
     (length m = 4 + 1 + a + 1 + b \<and>
      list_all dg (take 4 m) \<and>
      is_date_sep (m ! 4) \<and>
      list_all dg (take a (drop 5 m)) \<and>
      is_date_sep (m ! (5 + a)) \<and>
      list_all dg (drop (6 + a) m))"

definition date_form :: "pystr \<Rightarrow> bool" where
  "date_form m =
     (date_shape is_ascii_digit 2 2 m \<or> date_shape is_ascii_digit 2 1 m \<or>
      date_shape is_ascii_digit 1 2 m \<or> date_shape is_ascii_digit 1 1 m)"

definition unicode_date_form :: "pystr \<Rightarrow> bool" where
  "unicode_date_form m =
     (date_shape unicode_decimal 2 2 m \<or> date_shape unicode_decimal 2 1 m \<or>
      date_shape unicode_decimal 1 2 m \<or> date_shape unicode_decimal 1 1 m)"

section \<open>Auxiliary functions for the proofs\<close>

text \<open>
  The number of leading ASCII digits of a text, up to three; the text left when all
  leading comma groups are removed; and the texts left after a date at the start of a
  text, longest date first.
\<close>

definition lead3 :: "pystr \<Rightarrow> nat" where
  "lead3 s = length (takeWhile is_ascii_digit (take 3 s))"

fun eat_groups :: "pystr \<Rightarrow> pystr" where
  "eat_groups (c # d1 # d2 # d3 # rest) =
     (if c = comma \<and> is_ascii_digit d1 \<and> is_ascii_digit d2 \<and> is_ascii_digit d3
      then eat_groups rest else c # d1 # d2 # d3 # rest)"
| "eat_groups s = s"

definition date_candidates :: "pystr \<Rightarrow> pystr list" where
  "date_candidates s =
     concat (map (\<lambda>(a, b). if date_shape unicode_decimal a b (take (6 + a + b) s) then [drop (6 + a + b) s] else [])
       [(2, 2), (2, 1), (1, 2), (1, 1)])"

section \<open>Properties of the row builder\<close>

lemma length_CSV_COLUMNS: "length CSV_COLUMNS = 44"
  by (simp add: CSV_COLUMNS_def)

lemma build_csv_row_eq:
  "build_csv_row date amount partner =
     Inr ((replicate 44 [])[0 := replace_char hyphen slash date, 15 := amount, 33 := partner])"
  by (simp add: build_csv_row_def length_CSV_COLUMNS setitem_def bind_err_def replace_char_def)

section \<open>Evaluation on concrete inputs\<close>

lemma matches_Lit:
  "matches (Lit a) s = (case s of [] \<Rightarrow> [] | c # cs \<Rightarrow> if c = a then [cs] else [])"
  by simp

lemma matches_Digit:
  "matches Digit s = (case s of [] \<Rightarrow> [] | c # cs \<Rightarrow> if unicode_decimal c then [cs] else [])"
  by simp

lemma matches_Set:
  "matches (Set items) s =
     (case s of [] \<Rightarrow> [] | c # cs \<Rightarrow> if list_ex (\<lambda>i. in_item i c) items then [cs] else [])"
  by simp

lemma matches_Seq: "matches (Seq r1 r2) s = concat (map (matches r2) (matches r1 s))"
  by simp

lemma matches_Repeat:
  "matches (Repeat r lo hi) s =
     repeat (matches r) lo (case hi of Some n \<Rightarrow> n | None \<Rightarrow> lo + length s) s"
  by simp

lemmas matches_eqs = matches_Lit matches_Digit matches_Set matches_Seq matches_Repeat

declare matches.simps [simp del]

lemma repeat_numeral:
  "repeat f lo (numeral k) s =
     concat (map (repeat f (lo - 1) (pred_numeral k)) (f s)) @ (if lo = 0 then [s] else [])"
  by (simp add: numeral_eq_Suc)

lemmas eval_rules =
  str_def hyphen_def slash_def comma_def LF_def CR_def
  unicode_decimal_def Nd_zeros_def isspace_def is_linebreak_def strip_def splitlines_def
  repeat_numeral search_def group0_def date_sep_def date_re_def ascii_digit_def
  comma_group_def amount_re_def parse_info_def remove_char_def matches_eqs

section \<open>What the amount pattern matches\<close>

lemma matches_ascii_digit:
  "matches ascii_digit s = (case s of [] \<Rightarrow> [] | c # cs \<Rightarrow> if is_ascii_digit c then [cs] else [])"
  by (simp add: ascii_digit_def is_ascii_digit_def matches_Set split: list.splits)

lemma matches_three_digits:
  "matches (Repeat ascii_digit 3 (Some 3)) s =
     (case s of d1 # d2 # d3 # rest \<Rightarrow>
        if is_ascii_digit d1 \<and> is_ascii_digit d2 \<and> is_ascii_digit d3 then [rest] else []
      | _ \<Rightarrow> [])"
  by (simp add: matches_Repeat matches_ascii_digit repeat_numeral split: list.splits)

lemma matches_comma_group:
  "matches comma_group s =
     (case s of c # d1 # d2 # d3 # rest \<Rightarrow>
        if c = comma \<and> is_ascii_digit d1 \<and> is_ascii_digit d2 \<and> is_ascii_digit d3 then [rest] else []
      | _ \<Rightarrow> [])"
  by (simp add: comma_group_def matches_Seq matches_Lit matches_three_digits split: list.splits)

lemma eat_groups_length: "length (eat_groups s) \<le> length s"
  by (induction s rule: eat_groups.induct) auto

lemma repeat_groups:
  "length s \<le> h \<Longrightarrow> \<exists>rs. repeat (matches comma_group) 0 h s = eat_groups s # rs"
proof (induction h arbitrary: s)
  case 0
  then show ?case by simp
next
  case (Suc h)
  show ?case
  proof (cases "matches comma_group s")
    case Nil
    then have "eat_groups s = s"
      by (cases s rule: eat_groups.cases) (auto simp: matches_comma_group split: if_splits)
    with Nil show ?thesis by simp
  next
    case (Cons r rs)
    then obtain c d1 d2 d3 where s: "s = c # d1 # d2 # d3 # r"
      and g: "c = comma \<and> is_ascii_digit d1 \<and> is_ascii_digit d2 \<and> is_ascii_digit d3" and rs: "rs = []"
      by (cases s rule: eat_groups.cases) (auto simp: matches_comma_group split: if_splits)
    from s Suc.prems have "length r \<le> h" by simp
    then obtain rs' where "repeat (matches comma_group) 0 h r = eat_groups r # rs'"
      using Suc.IH by blast
    with Cons rs s g show ?thesis by simp
  qed
qed

text \<open>
  The bound on the iterations of \<open>*\<close> is never reached by the comma groups: a larger
  bound gives the same matches.
\<close>

lemma repeat_groups_bound:
  "length s \<le> h \<Longrightarrow>
     repeat (matches comma_group) 0 h s = repeat (matches comma_group) 0 (length s) s"
proof (induction h arbitrary: s rule: less_induct)
  case (less h)
  show ?case
  proof (cases "matches comma_group s")
    case Nil
    then show ?thesis
      by (cases h; cases "length s") simp_all
  next
    case (Cons r rs)
    then obtain c d1 d2 d3 where s: "s = c # d1 # d2 # d3 # r" and rs: "rs = []"
      by (cases s rule: eat_groups.cases) (auto simp: matches_comma_group split: if_splits)
    from s less.prems obtain h' where h: "h = Suc h'" by (cases h) auto
    have l: "length s = Suc (length r + 3)" using s by simp
    have a: "repeat (matches comma_group) 0 h s = repeat (matches comma_group) 0 h' r @ [s]"
      using Cons rs h by simp
    have b: "repeat (matches comma_group) 0 (length s) s =
        repeat (matches comma_group) 0 (length r + 3) r @ [s]"
      unfolding l by (subst repeat.simps(2)) (simp add: Cons rs)
    have "repeat (matches comma_group) 0 h' r = repeat (matches comma_group) 0 (length r) r"
      using less.IH [of h' r] h s less.prems by simp
    moreover have "repeat (matches comma_group) 0 (length r + 3) r =
        repeat (matches comma_group) 0 (length r) r"
      using less.IH [of "length r + 3" r] h s less.prems by simp
    ultimately show ?thesis
      using a b by simp
  qed
qed

lemma ascii_digit_is_decimal: "is_ascii_digit c \<Longrightarrow> unicode_decimal c"
  by (simp add: is_ascii_digit_def unicode_decimal_def Nd_zeros_def)

lemma matches_lead:
  "matches (Repeat ascii_digit 1 (Some 3)) s = map (\<lambda>k. drop k s) (rev [1..<Suc (lead3 s)])"
  apply (cases s; simp add: matches_Repeat matches_ascii_digit repeat_numeral lead3_def)
  subgoal for a s1
  apply (cases s1; simp add: matches_ascii_digit)
  subgoal for b s2
  apply (cases s2; simp add: matches_ascii_digit)
  done
  done
  done

lemma matches_amount_none: "lead3 s = 0 \<Longrightarrow> matches amount_re s = []"
  unfolding amount_re_def matches_Seq matches_lead by simp

lemma matches_amount_head:
  assumes "0 < lead3 s"
  shows "\<exists>rs. matches amount_re s = eat_groups (drop (lead3 s) s) # rs"
proof -
  from assms obtain n where n: "lead3 s = Suc n"
    by (cases "lead3 s") auto
  obtain rs where "repeat (matches comma_group) 0 (length (drop (Suc n) s)) (drop (Suc n) s) =
      eat_groups (drop (Suc n) s) # rs"
    using repeat_groups [of "drop (Suc n) s" "length (drop (Suc n) s)"] by auto
  then show ?thesis
    unfolding amount_re_def matches_Seq matches_lead by (simp add: matches_Repeat n)
qed

lemma lead3_le: "lead3 s \<le> 3 \<and> lead3 s \<le> length s"
proof -
  have "lead3 s \<le> length (take 3 s)"
    unfolding lead3_def by (rule length_takeWhile_le)
  then show ?thesis by simp
qed

lemma lead3_digits: "list_all is_ascii_digit (take (lead3 s) s)"
proof -
  have "takeWhile is_ascii_digit (take 3 s) = take (lead3 s) (take 3 s)"
    unfolding lead3_def by (rule takeWhile_eq_take)
  also have "\<dots> = take (lead3 s) s"
    using lead3_le [of s] by (simp add: min_def)
  finally have "take (lead3 s) s = takeWhile is_ascii_digit (take 3 s)" by simp
  then show ?thesis
    by (simp add: list_all_iff) (metis set_takeWhileD)
qed

lemma lead3_max:
  assumes "k \<le> 3" "k \<le> length s" "list_all is_ascii_digit (take k s)"
  shows "k \<le> lead3 s"
proof (rule ccontr)
  assume "\<not> k \<le> lead3 s"
  then have lt: "lead3 s < k" by simp
  with assms have "lead3 s < length (take 3 s)" by simp
  then have "\<not> is_ascii_digit (take 3 s ! lead3 s)"
    unfolding lead3_def by (rule nth_length_takeWhile)
  moreover have "take 3 s ! lead3 s = take k s ! lead3 s"
    using lt assms by simp
  moreover have "is_ascii_digit (take k s ! lead3 s)"
    using assms lt by (simp add: list_all_length)
  ultimately show False by simp
qed

lemma eat_groups_split: "\<exists>g. s = g @ eat_groups s \<and> comma_groups g"
proof (induction s rule: eat_groups.induct)
  case (1 c d1 d2 d3 rest)
  show ?case
  proof (cases "c = comma \<and> is_ascii_digit d1 \<and> is_ascii_digit d2 \<and> is_ascii_digit d3")
    case True
    with 1 obtain g where "rest = g @ eat_groups rest" "comma_groups g" by blast
    with True have "c # d1 # d2 # d3 # rest = (c # d1 # d2 # d3 # g) @ eat_groups (c # d1 # d2 # d3 # rest) \<and>
        comma_groups (c # d1 # d2 # d3 # g)"
      by simp
    then show ?thesis by blast
  next
    case False
    then have "c # d1 # d2 # d3 # rest = [] @ eat_groups (c # d1 # d2 # d3 # rest) \<and> comma_groups []"
      by auto
    then show ?thesis by blast
  qed
qed (auto intro: exI [of _ "[]"])

lemma eat_groups_max: "comma_groups g \<Longrightarrow> length (eat_groups (g @ r)) \<le> length r"
  by (induction g rule: comma_groups.induct) (auto simp: eat_groups_length)

lemma comma_groups_hd: "comma_groups (c # g) \<Longrightarrow> c = comma"
  by (cases "c # g" rule: comma_groups.cases) auto

lemma comma_not_digit: "\<not> is_ascii_digit comma"
  by (simp add: is_ascii_digit_def comma_def)

lemma grouped_prefix_sound:
  assumes "0 < lead3 s"
  shows "\<exists>m. s = m @ eat_groups (drop (lead3 s) s) \<and> grouped_numeral m"
proof -
  obtain g where g: "drop (lead3 s) s = g @ eat_groups (drop (lead3 s) s)" "comma_groups g"
    using eat_groups_split by blast
  let ?m = "take (lead3 s) s @ g"
  have "s = take (lead3 s) s @ drop (lead3 s) s" by simp
  with g have 1: "s = ?m @ eat_groups (drop (lead3 s) s)" by simp
  have "leading (lead3 s) ?m"
    using lead3_le [of s] lead3_digits [of s] g by (simp add: leading_def)
  moreover have "lead3 s = 1 \<or> lead3 s = 2 \<or> lead3 s = 3"
    using assms lead3_le [of s] by arith
  ultimately have "grouped_numeral ?m"
    unfolding grouped_numeral_def by auto
  with 1 show ?thesis by blast
qed

lemma leading_bound:
  assumes k: "k \<le> 3" and l: "leading k m"
  shows "k \<le> lead3 (m @ r) \<and> length (eat_groups (drop (lead3 (m @ r)) (m @ r))) \<le> length r"
proof -
  define s where "s = m @ r"
  from l have kl: "k \<le> length m" and dg: "list_all is_ascii_digit (take k m)"
    and cg: "comma_groups (drop k m)"
    by (simp_all add: leading_def)
  have kn: "k \<le> lead3 s"
    using k kl dg unfolding s_def by (intro lead3_max) simp_all
  have ls: "length s = length m + length r"
    by (simp add: s_def)
  have "k \<le> lead3 s \<and> length (eat_groups (drop (lead3 s) s)) \<le> length r"
  proof (cases "k = lead3 s")
    case True
    then have "drop (lead3 s) s = drop k m @ r"
      using kl by (simp add: s_def)
    with cg kn show ?thesis
      by (simp add: eat_groups_max)
  next
    case False
    with kn have lt: "k < lead3 s" by simp
    have "\<forall>i < length (take (lead3 s) s). is_ascii_digit (take (lead3 s) s ! i)"
      using lead3_digits [of s] by (simp only: list_all_length)
    moreover have "k < length (take (lead3 s) s)"
      using lt lead3_le [of s] by simp
    ultimately have "is_ascii_digit (take (lead3 s) s ! k)" by blast
    then have d: "is_ascii_digit (s ! k)"
      using lt by simp
    have "drop k m = []"
    proof (cases "drop k m")
      case (Cons c g)
      with cg have "c = comma" by (simp add: comma_groups_hd)
      moreover from Cons have km: "k < length m" by (cases "k < length m") auto
      then have "s ! k = hd (drop k m)" by (simp add: hd_drop_conv_nth nth_append s_def)
      ultimately show ?thesis using d Cons comma_not_digit by simp
    qed simp
    then have "length m \<le> k" by simp
    moreover have "length (eat_groups (drop (lead3 s) s)) \<le> length (drop (lead3 s) s)"
      by (rule eat_groups_length)
    ultimately show ?thesis using lt kn ls by simp
  qed
  then show ?thesis by (simp add: s_def)
qed

lemma grouped_prefix_max:
  assumes "grouped_numeral m"
  shows "0 < lead3 (m @ r) \<and> length (eat_groups (drop (lead3 (m @ r)) (m @ r))) \<le> length r"
  using assms leading_bound [of 1 m r] leading_bound [of 2 m r] leading_bound [of 3 m r]
  unfolding grouped_numeral_def by auto

section \<open>What the date pattern matches\<close>

lemma matches_Digit_Cons: "matches Digit (c # cs) = (if unicode_decimal c then [cs] else [])"
  and matches_Digit_Nil: "matches Digit [] = []"
  by (simp_all add: matches_Digit)

lemma matches_date_sep_Cons: "matches date_sep (c # cs) = (if is_date_sep c then [cs] else [])"
  and matches_date_sep_Nil: "matches date_sep [] = []"
  by (simp_all add: matches_Set date_sep_def is_date_sep_def)

lemmas date_eval = date_re_def matches_Seq matches_Repeat repeat_numeral
  matches_Digit_Cons matches_Digit_Nil matches_date_sep_Cons matches_date_sep_Nil

lemma len10: "10 \<le> length (s::'a list) \<Longrightarrow>
    \<exists>c0 c1 c2 c3 c4 c5 c6 c7 c8 c9 rest. s = c0 # c1 # c2 # c3 # c4 # c5 # c6 # c7 # c8 # c9 # rest"
  by (auto simp: eval_nat_numeral Suc_le_length_iff)

lemma len_lt10: "length (s::'a list) < 10 \<Longrightarrow>
    s = [] \<or> (\<exists>c0. s = [c0]) \<or> (\<exists>c0 c1. s = [c0, c1]) \<or> (\<exists>c0 c1 c2. s = [c0, c1, c2]) \<or>
    (\<exists>c0 c1 c2 c3. s = [c0, c1, c2, c3]) \<or> (\<exists>c0 c1 c2 c3 c4. s = [c0, c1, c2, c3, c4]) \<or>
    (\<exists>c0 c1 c2 c3 c4 c5. s = [c0, c1, c2, c3, c4, c5]) \<or>
    (\<exists>c0 c1 c2 c3 c4 c5 c6. s = [c0, c1, c2, c3, c4, c5, c6]) \<or>
    (\<exists>c0 c1 c2 c3 c4 c5 c6 c7. s = [c0, c1, c2, c3, c4, c5, c6, c7]) \<or>
    (\<exists>c0 c1 c2 c3 c4 c5 c6 c7 c8. s = [c0, c1, c2, c3, c4, c5, c6, c7, c8])"
proof -
  assume "length s < 10"
  then have "length s = 0 \<or> length s = 1 \<or> length s = 2 \<or> length s = 3 \<or> length s = 4 \<or>
      length s = 5 \<or> length s = 6 \<or> length s = 7 \<or> length s = 8 \<or> length s = 9"
    by arith
  then show ?thesis
    by (elim disjE) (auto simp add: eval_nat_numeral length_Suc_conv)
qed

lemma matches_date_long:
  "matches date_re (c0 # c1 # c2 # c3 # c4 # c5 # c6 # c7 # c8 # c9 # rest) =
   date_candidates (c0 # c1 # c2 # c3 # c4 # c5 # c6 # c7 # c8 # c9 # rest)"
  by (auto simp add: date_eval date_candidates_def date_shape_def)

lemma matches_date_short:
  "length s < 10 \<Longrightarrow> matches date_re s = date_candidates s"
  by (drule len_lt10, elim disjE exE)
    (auto simp add: date_eval date_candidates_def date_shape_def)

lemma matches_date: "matches date_re s = date_candidates s"
proof (cases "length s < 10")
  case True
  then show ?thesis by (rule matches_date_short)
next
  case False
  then have "10 \<le> length s" by simp
  then have "\<exists>c0 c1 c2 c3 c4 c5 c6 c7 c8 c9 rest.
      s = c0 # c1 # c2 # c3 # c4 # c5 # c6 # c7 # c8 # c9 # rest"
    by (rule len10)
  then show ?thesis by (elim exE) (simp only: matches_date_long)
qed

lemma date_shape_length: "date_shape unicode_decimal a b m \<Longrightarrow> length m = 6 + a + b"
  by (simp add: date_shape_def)

lemma date_shape_prefix:
  "date_shape unicode_decimal a b m \<Longrightarrow> n = 6 + a + b \<Longrightarrow> date_shape unicode_decimal a b (take n (m @ rest))"
  by (simp add: date_shape_def)

lemma date_form_length: "unicode_date_form m \<Longrightarrow> 8 \<le> length m \<and> length m \<le> 10"
  by (auto simp: unicode_date_form_def date_shape_def)

lemma date_candidates_none:
  assumes "date_candidates s = []"
  shows "\<not> (\<exists>m rest. s = m @ rest \<and> unicode_date_form m)"
proof
  assume "\<exists>m rest. s = m @ rest \<and> unicode_date_form m"
  then obtain m rest where s: "s = m @ rest" and f: "unicode_date_form m" by blast
  from f consider "date_shape unicode_decimal 2 2 m" | "date_shape unicode_decimal 2 1 m" | "date_shape unicode_decimal 1 2 m" | "date_shape unicode_decimal 1 1 m"
    unfolding unicode_date_form_def by blast
  then show False
  proof cases
    case 1
    then have "date_shape unicode_decimal 2 2 (take 10 s)"
      unfolding s by (rule date_shape_prefix) simp
    with assms show False
      by (simp add: date_candidates_def split: if_splits)
  next
    case 2
    then have "date_shape unicode_decimal 2 1 (take 9 s)"
      unfolding s by (rule date_shape_prefix) simp
    with assms show False
      by (simp add: date_candidates_def split: if_splits)
  next
    case 3
    then have "date_shape unicode_decimal 1 2 (take 9 s)"
      unfolding s by (rule date_shape_prefix) simp
    with assms show False
      by (simp add: date_candidates_def split: if_splits)
  next
    case 4
    then have "date_shape unicode_decimal 1 1 (take 8 s)"
      unfolding s by (rule date_shape_prefix) simp
    with assms show False
      by (simp add: date_candidates_def split: if_splits)
  qed
qed

lemma date_shape_take:
  "date_shape unicode_decimal a b (take (6 + a + b) s) \<Longrightarrow>
     s = take (6 + a + b) s @ drop (6 + a + b) s \<and> length (take (6 + a + b) s) = 6 + a + b"
  by (simp add: date_shape_def)

lemma date_candidates_head:
  assumes "date_candidates s = rest # rs"
  shows "\<exists>m. s = m @ rest \<and> unicode_date_form m \<and>
           (\<forall>m' rest'. s = m' @ rest' \<and> unicode_date_form m' \<longrightarrow> length m' \<le> length m)"
proof -
  have bound: "length m' \<le> n" if s: "s = m' @ rest'" and f: "unicode_date_form m'"
    and n9: "date_shape unicode_decimal 2 1 (take 9 s) \<or> date_shape unicode_decimal 1 2 (take 9 s) \<longrightarrow> 9 \<le> n"
    and n10: "date_shape unicode_decimal 2 2 (take 10 s) \<longrightarrow> 10 \<le> n" and n8: "8 \<le> n"
    for m' rest' n
  proof -
    from f consider "date_shape unicode_decimal 2 2 m'" | "date_shape unicode_decimal 2 1 m'" | "date_shape unicode_decimal 1 2 m'" | "date_shape unicode_decimal 1 1 m'"
      unfolding unicode_date_form_def by blast
    then show ?thesis
    proof cases
      case 1
      then have "date_shape unicode_decimal 2 2 (take 10 s)"
        unfolding s by (rule date_shape_prefix) simp
      moreover from date_shape_length [OF 1] have "length m' = 10"
        by simp
      ultimately have "date_shape unicode_decimal 2 2 (take 10 s)" "length m' = 10"
        by simp_all
      with n10 show ?thesis by simp
    next
      case 2
      then have "date_shape unicode_decimal 2 1 (take 9 s)"
        unfolding s by (rule date_shape_prefix) simp
      moreover from date_shape_length [OF 2] have "length m' = 9"
        by simp
      ultimately have "date_shape unicode_decimal 2 1 (take 9 s)" "length m' = 9"
        by simp_all
      with n9 show ?thesis by simp
    next
      case 3
      then have "date_shape unicode_decimal 1 2 (take 9 s)"
        unfolding s by (rule date_shape_prefix) simp
      moreover from date_shape_length [OF 3] have "length m' = 9"
        by simp
      ultimately have "date_shape unicode_decimal 1 2 (take 9 s)" "length m' = 9"
        by simp_all
      with n9 show ?thesis by simp
    next
      case 4
      from date_shape_length [OF this] have "length m' = 8"
        by simp
      with n8 show ?thesis by simp
    qed
  qed
  show ?thesis
  proof (cases "date_shape unicode_decimal 2 2 (take 10 s)")
    case True
    with assms have r: "rest = drop 10 s" by (simp add: date_candidates_def)
    from True have "unicode_date_form (take 10 s)" by (simp add: unicode_date_form_def)
    moreover from date_shape_take [of 2 2 s] True r have "s = take 10 s @ rest" "length (take 10 s) = 10"
      by simp_all
    moreover have "\<forall>m' rest'. s = m' @ rest' \<and> unicode_date_form m' \<longrightarrow> length m' \<le> 10"
      using date_form_length by blast
    ultimately show ?thesis by metis
  next
    case F22: False
    show ?thesis
    proof (cases "date_shape unicode_decimal 2 1 (take 9 s) \<or> date_shape unicode_decimal 1 2 (take 9 s)")
      case True
      with assms F22 have r: "rest = drop 9 s"
        by (auto simp add: date_candidates_def split: if_splits)
      from True have "unicode_date_form (take 9 s)" by (auto simp add: unicode_date_form_def)
      moreover from date_shape_take [of 2 1 s] date_shape_take [of 1 2 s] True r
      have "s = take 9 s @ rest" "length (take 9 s) = 9"
        by auto
      moreover have "\<forall>m' rest'. s = m' @ rest' \<and> unicode_date_form m' \<longrightarrow> length m' \<le> 9"
        using bound [of _ _ 9] F22 by auto
      ultimately show ?thesis by metis
    next
      case F9: False
      with assms F22 have V: "date_shape unicode_decimal 1 1 (take 8 s)" and r: "rest = drop 8 s"
        by (auto simp add: date_candidates_def split: if_splits)
      from V have "unicode_date_form (take 8 s)" by (simp add: unicode_date_form_def)
      moreover from date_shape_take [of 1 1 s] V r have "s = take 8 s @ rest" "length (take 8 s) = 8"
        by simp_all
      moreover have "\<forall>m' rest'. s = m' @ rest' \<and> unicode_date_form m' \<longrightarrow> length m' \<le> 8"
        using bound [of _ _ 8] F22 F9 by auto
      ultimately show ?thesis by metis
    qed
  qed
qed

lemma search_from_None:
  "search_from r i s = None \<Longrightarrow> k \<le> length s \<Longrightarrow> matches r (drop k s) = []"
proof (induction s arbitrary: i k)
  case Nil
  then show ?case by (simp split: list.splits)
next
  case (Cons c cs)
  from Cons.prems(1) have here: "matches r (c # cs) = []" and later: "search_from r (Suc i) cs = None"
    by (simp_all split: list.splits)
  show ?case
  proof (cases k)
    case 0
    with here show ?thesis by simp
  next
    case (Suc k')
    with Cons.prems(2) have "k' \<le> length cs" by simp
    with later Cons.IH Suc show ?thesis by simp
  qed
qed

lemma search_from_Some:
  "search_from r i s = Some (j, m) \<Longrightarrow>
     \<exists>k rest rs. j = i + k \<and> k \<le> length s \<and> matches r (drop k s) = rest # rs \<and>
       m = take (length (drop k s) - length rest) (drop k s) \<and>
       (\<forall>k' < k. matches r (drop k' s) = [])"
proof (induction s arbitrary: i)
  case Nil
  then show ?case by (auto split: list.splits)
next
  case (Cons c cs)
  show ?case
  proof (cases "matches r (c # cs)")
    case Nil
    with Cons.prems have "search_from r (Suc i) cs = Some (j, m)" by simp
    then obtain k rest rs where k: "j = Suc i + k" "k \<le> length cs" "matches r (drop k cs) = rest # rs"
      "m = take (length (drop k cs) - length rest) (drop k cs)" "\<forall>k' < k. matches r (drop k' cs) = []"
      using Cons.IH by blast
    have "\<forall>k' < Suc k. matches r (drop k' (c # cs)) = []"
    proof (intro allI impI)
      fix k' assume "k' < Suc k"
      then show "matches r (drop k' (c # cs)) = []"
        using Nil k(5) by (cases k') auto
    qed
    with k have "j = i + Suc k \<and> Suc k \<le> length (c # cs) \<and> matches r (drop (Suc k) (c # cs)) = rest # rs \<and>
       m = take (length (drop (Suc k) (c # cs)) - length rest) (drop (Suc k) (c # cs)) \<and>
       (\<forall>k' < Suc k. matches r (drop k' (c # cs)) = [])"
      by simp
    then show ?thesis by blast
  next
    case (Cons rest rs)
    with Cons.prems have "j = i + 0 \<and> 0 \<le> length (c # cs) \<and> matches r (drop 0 (c # cs)) = rest # rs \<and>
       m = take (length (drop 0 (c # cs)) - length rest) (drop 0 (c # cs)) \<and>
       (\<forall>k' < 0. matches r (drop k' (c # cs)) = [])"
      by simp
    then show ?thesis by blast
  qed
qed

section \<open>The search and the first match\<close>

lemma search_first_match_None:
  assumes none: "\<And>s. matches r s = [] \<Longrightarrow> \<not> (\<exists>m rest. s = m @ rest \<and> P m)"
    and s: "search r tx = None"
  shows "\<not> (\<exists>pre m post. tx = pre @ m @ post \<and> P m)"
proof
  assume "\<exists>pre m post. tx = pre @ m @ post \<and> P m"
  then obtain pre m post where t: "tx = pre @ m @ post" and p: "P m" by blast
  from s have "matches r (drop (length pre) tx) = []"
    unfolding search_def by (rule search_from_None) (simp add: t)
  then have "\<not> (\<exists>m' rest. drop (length pre) tx = m' @ rest \<and> P m')"
    by (rule none)
  moreover have "drop (length pre) tx = m @ post"
    by (simp add: t)
  ultimately show False using p by blast
qed

lemma search_first_match_Some:
  assumes none: "\<And>s. matches r s = [] \<Longrightarrow> \<not> (\<exists>m rest. s = m @ rest \<and> P m)"
    and head: "\<And>s rest rs. matches r s = rest # rs \<Longrightarrow>
      \<exists>m. s = m @ rest \<and> P m \<and> (\<forall>m' rest'. s = m' @ rest' \<and> P m' \<longrightarrow> length m' \<le> length m)"
    and s: "search r tx = Some (j, m)"
  shows "first_match P tx (take j tx) m \<and> j \<le> length tx"
proof -
  from s obtain rest rs where j: "j \<le> length tx" and hd: "matches r (drop j tx) = rest # rs"
    and m: "m = take (length (drop j tx) - length rest) (drop j tx)"
    and before: "\<forall>k' < j. matches r (drop k' tx) = []"
    unfolding search_def using search_from_Some [of r 0 tx j m] by auto
  from head [OF hd] obtain m0 where m0: "drop j tx = m0 @ rest" "P m0"
    and mx: "\<forall>m' rest'. drop j tx = m' @ rest' \<and> P m' \<longrightarrow> length m' \<le> length m0"
    by blast
  from m m0 have mm: "m = m0" by simp
  have "tx = take j tx @ drop j tx" by simp
  with m0 mm have dec: "tx = take j tx @ m @ rest" by simp
  have first: "length (take j tx) < length pre' \<or>
      (length pre' = length (take j tx) \<and> length m' \<le> length m)"
    if t: "tx = pre' @ m' @ post'" and p: "P m'" for pre' m' post'
  proof -
    have d: "drop (length pre') tx = m' @ post'" by (simp add: t)
    have "\<not> length pre' < j"
    proof
      assume "length pre' < j"
      with before have "matches r (drop (length pre') tx) = []" by blast
      from none [OF this] d p show False by blast
    qed
    then have ge: "j \<le> length pre'" by simp
    show ?thesis
    proof (cases "length pre' = j")
      case True
      with d mx p mm have "length m' \<le> length m" by blast
      with True j show ?thesis by simp
    next
      case False
      with ge j show ?thesis by simp
    qed
  qed
  have "first_match P tx (take j tx) m"
    unfolding first_match_def
  proof (intro conjI allI impI)
    show "\<exists>post. tx = take j tx @ m @ post" using dec by blast
    show "P m" using m0 mm by simp
    fix pre' m' post'
    assume "tx = pre' @ m' @ post' \<and> P m'"
    then show "length (take j tx) < length pre' \<or>
      (length pre' = length (take j tx) \<and> length m' \<le> length m)"
      using first by blast
  qed
  with j show ?thesis by simp
qed

lemma first_match_unique:
  assumes "first_match P tx pre m" "first_match P tx pre' m'"
  shows "pre' = pre \<and> m' = m"
proof -
  from assms obtain post post' where t: "tx = pre @ m @ post" "tx = pre' @ m' @ post'"
    and p: "P m" "P m'"
    unfolding first_match_def by blast
  from assms(1) t(2) p(2) have a: "length pre < length pre' \<or>
      (length pre' = length pre \<and> length m' \<le> length m)"
    unfolding first_match_def by blast
  from assms(2) t(1) p(1) have b: "length pre' < length pre \<or>
      (length pre = length pre' \<and> length m \<le> length m')"
    unfolding first_match_def by blast
  from a b have l: "length pre' = length pre" "length m' = length m" by auto
  from t have "pre @ m @ post = pre' @ m' @ post'" by simp
  with l show ?thesis by simp
qed

lemma amount_none:
  assumes "matches amount_re s = []"
  shows "\<not> (\<exists>m rest. s = m @ rest \<and> grouped_numeral m)"
proof
  assume "\<exists>m rest. s = m @ rest \<and> grouped_numeral m"
  then obtain m rest where "s = m @ rest" "grouped_numeral m" by blast
  then have "0 < lead3 s" using grouped_prefix_max [of m rest] by simp
  then show False using matches_amount_head [of s] assms by auto
qed

lemma amount_head:
  assumes "matches amount_re s = rest # rs"
  shows "\<exists>m. s = m @ rest \<and> grouped_numeral m \<and>
           (\<forall>m' rest'. s = m' @ rest' \<and> grouped_numeral m' \<longrightarrow> length m' \<le> length m)"
proof -
  have pos: "0 < lead3 s"
    using assms matches_amount_none [of s] by (cases "lead3 s") auto
  then have r: "rest = eat_groups (drop (lead3 s) s)"
    using matches_amount_head [of s] assms by auto
  from grouped_prefix_sound [OF pos] r obtain m where m: "s = m @ rest" "grouped_numeral m"
    by blast
  have "length m' \<le> length m" if "s = m' @ rest'" "grouped_numeral m'" for m' rest'
  proof -
    from that grouped_prefix_max [of m' rest'] r have "length rest \<le> length rest'" by simp
    moreover have "length s = length m' + length rest'" "length s = length m + length rest"
      using that(1) m(1) by (metis length_append)+
    ultimately show ?thesis by simp
  qed
  with m show ?thesis by blast
qed

lemma date_none:
  "matches date_re s = [] \<Longrightarrow> \<not> (\<exists>m rest. s = m @ rest \<and> unicode_date_form m)"
  using date_candidates_none by (simp add: matches_date)

lemma date_head:
  "matches date_re s = rest # rs \<Longrightarrow>
     \<exists>m. s = m @ rest \<and> unicode_date_form m \<and>
       (\<forall>m' rest'. s = m' @ rest' \<and> unicode_date_form m' \<longrightarrow> length m' \<le> length m)"
  using date_candidates_head by (simp add: matches_date)

lemma comma_groups_digits: "comma_groups g \<Longrightarrow> list_all is_ascii_digit (remove_char comma g)"
  by (induction g rule: comma_groups.induct) (auto simp: remove_char_def comma_not_digit)

lemma digits_no_comma: "list_all is_ascii_digit ds \<Longrightarrow> remove_char comma ds = ds"
  using comma_not_digit by (induction ds) (auto simp: remove_char_def)

lemma grouped_numeral_digits:
  assumes "grouped_numeral m"
  shows "list_all is_ascii_digit (remove_char comma m)"
proof -
  from assms obtain k where "leading k m"
    unfolding grouped_numeral_def by blast
  then have d: "list_all is_ascii_digit (take k m)" and g: "comma_groups (drop k m)"
    by (simp_all add: leading_def)
  have "remove_char comma m = remove_char comma (take k m) @ remove_char comma (drop k m)"
    unfolding remove_char_def by (metis append_take_drop_id filter_append)
  with d g show ?thesis
    by (simp add: digits_no_comma comma_groups_digits)
qed

lemma parsed_amount_eq:
  "parsed_amount (parse_info tx) =
     (case search amount_re tx of None \<Rightarrow> [] | Some jm \<Rightarrow> remove_char comma (snd jm))"
  by (simp add: parsed_amount_def parse_info_def group0_def Let_def split: option.splits)

lemma parsed_date_eq:
  "parsed_date (parse_info tx) = (case search date_re tx of None \<Rightarrow> [] | Some jm \<Rightarrow> snd jm)"
  by (simp add: parsed_date_def parse_info_def group0_def Let_def split: option.splits)

lemma amount_is_first_match:
  "(\<exists>pre m post. tx = pre @ m @ post \<and> grouped_numeral m) \<Longrightarrow>
     \<exists>pre m. first_match grouped_numeral tx pre m \<and>
       parsed_amount (parse_info tx) = remove_char comma m"
proof -
  assume ex: "\<exists>pre m post. tx = pre @ m @ post \<and> grouped_numeral m"
  show ?thesis
  proof (cases "search amount_re tx")
    case None
    with ex show ?thesis
      using search_first_match_None [of amount_re grouped_numeral tx] amount_none by blast
  next
    case (Some jm)
    obtain j m where jm: "jm = (j, m)" by (cases jm)
    with Some have "first_match grouped_numeral tx (take j tx) m"
      using search_first_match_Some [of amount_re grouped_numeral tx j m] amount_none amount_head
      by blast
    with Some jm show ?thesis
      by (auto simp: parsed_amount_eq)
  qed
qed

lemma amount_no_match:
  "\<not> (\<exists>pre m post. tx = pre @ m @ post \<and> grouped_numeral m) \<Longrightarrow>
     parsed_amount (parse_info tx) = []"
proof -
  assume no: "\<not> (\<exists>pre m post. tx = pre @ m @ post \<and> grouped_numeral m)"
  show ?thesis
  proof (cases "search amount_re tx")
    case None
    then show ?thesis by (simp add: parsed_amount_eq)
  next
    case (Some jm)
    obtain j m where jm: "jm = (j, m)" by (cases jm)
    with Some have "first_match grouped_numeral tx (take j tx) m"
      using search_first_match_Some [of amount_re grouped_numeral tx j m] amount_none amount_head
      by blast
    with no show ?thesis unfolding first_match_def by blast
  qed
qed

lemma date_is_first_match:
  "(\<exists>pre m post. tx = pre @ m @ post \<and> unicode_date_form m) \<Longrightarrow>
     \<exists>pre. first_match unicode_date_form tx pre (parsed_date (parse_info tx))"
proof -
  assume ex: "\<exists>pre m post. tx = pre @ m @ post \<and> unicode_date_form m"
  show ?thesis
  proof (cases "search date_re tx")
    case None
    with ex show ?thesis
      using search_first_match_None [of date_re unicode_date_form tx] date_none by blast
  next
    case (Some jm)
    obtain j m where jm: "jm = (j, m)" by (cases jm)
    with Some have "first_match unicode_date_form tx (take j tx) m"
      using search_first_match_Some [of date_re unicode_date_form tx j m] date_none date_head
      by blast
    with Some jm show ?thesis
      by (auto simp: parsed_date_eq)
  qed
qed

lemma date_no_match:
  "\<not> (\<exists>pre m post. tx = pre @ m @ post \<and> unicode_date_form m) \<Longrightarrow>
     parsed_date (parse_info tx) = []"
proof -
  assume no: "\<not> (\<exists>pre m post. tx = pre @ m @ post \<and> unicode_date_form m)"
  show ?thesis
  proof (cases "search date_re tx")
    case None
    then show ?thesis by (simp add: parsed_date_eq)
  next
    case (Some jm)
    obtain j m where jm: "jm = (j, m)" by (cases jm)
    with Some have "first_match unicode_date_form tx (take j tx) m"
      using search_first_match_Some [of date_re unicode_date_form tx j m] date_none date_head
      by blast
    with no show ?thesis unfolding first_match_def by blast
  qed
qed

lemma search_from_found:
  "n \<le> length s \<Longrightarrow> \<forall>k < n. matches r (drop k s) = [] \<Longrightarrow> matches r (drop n s) = rest # rs \<Longrightarrow>
     search_from r i s = Some (i + n, take (length (drop n s) - length rest) (drop n s))"
proof (induction s arbitrary: i n)
  case Nil
  then show ?case by simp
next
  case (Cons c cs)
  show ?case
  proof (cases n)
    case 0
    with Cons.prems show ?thesis by simp
  next
    case (Suc n')
    with Cons.prems have here: "matches r (c # cs) = []" by auto
    have "\<forall>k < n'. matches r (drop k cs) = []"
    proof (intro allI impI)
      fix k assume "k < n'"
      then have "Suc k < n" using Suc by simp
      with Cons.prems(2) have "matches r (drop (Suc k) (c # cs)) = []" by blast
      then show "matches r (drop k cs) = []" by simp
    qed
    moreover from Cons.prems Suc have "n' \<le> length cs" "matches r (drop n' cs) = rest # rs"
      by simp_all
    ultimately have "search_from r (Suc i) cs =
        Some (Suc i + n', take (length (drop n' cs) - length rest) (drop n' cs))"
      using Cons.IH by blast
    with here Suc show ?thesis by simp
  qed
qed

lemma lead3_Nil: "lead3 [] = 0"
  and lead3_nondigit: "\<not> is_ascii_digit c \<Longrightarrow> lead3 (c # s) = 0"
  by (simp_all add: lead3_def)

lemma eat_groups_no_group: "\<not> group_follows s \<Longrightarrow> eat_groups s = s"
  by (cases s rule: eat_groups.cases) (auto simp: group_follows_def)

lemma eat_groups_no_comma: "s = [] \<or> hd s \<noteq> comma \<Longrightarrow> eat_groups s = s"
  by (cases s rule: eat_groups.cases) auto

lemma search_amount_after_nondigits:
  assumes pre: "list_all (\<lambda>c. \<not> is_ascii_digit c) pre" and pos: "0 < lead3 s"
  shows "search amount_re (pre @ s) =
           Some (length pre, take (length s - length (eat_groups (drop (lead3 s) s))) s)"
proof -
  obtain rs where hd: "matches amount_re s = eat_groups (drop (lead3 s) s) # rs"
    using matches_amount_head [OF pos] by blast
  have "\<forall>k < length pre. matches amount_re (drop k (pre @ s)) = []"
  proof (intro allI impI)
    fix k assume k: "k < length pre"
    then have "drop k (pre @ s) = pre ! k # drop (Suc k) pre @ s"
      by (simp add: Cons_nth_drop_Suc)
    moreover have "\<not> is_ascii_digit (pre ! k)"
      using pre k by (simp add: list_all_length)
    ultimately show "matches amount_re (drop k (pre @ s)) = []"
      by (simp add: matches_amount_none lead3_nondigit)
  qed
  moreover have "matches amount_re (drop (length pre) (pre @ s)) = eat_groups (drop (lead3 s) s) # rs"
    using hd by simp
  ultimately have "search_from amount_re 0 (pre @ s) =
      Some (0 + length pre, take (length (drop (length pre) (pre @ s)) -
        length (eat_groups (drop (lead3 s) s))) (drop (length pre) (pre @ s)))"
    by (intro search_from_found) simp_all
  then show ?thesis by (simp add: search_def)
qed

lemma list_all_take: "list_all P xs \<Longrightarrow> list_all P (take n xs)"
  by (auto simp: list_all_iff dest: in_set_takeD)

lemma lead3_long_run:
  assumes "list_all is_ascii_digit run" "3 < length run"
  shows "lead3 (run @ rest) = 3"
proof -
  have "3 \<le> lead3 (run @ rest)"
    using assms by (intro lead3_max) (simp_all add: list_all_take)
  with lead3_le [of "run @ rest"] show ?thesis by simp
qed

lemma lead3_short_run:
  assumes d: "list_all is_ascii_digit run" and l: "length run \<le> 3"
    and r: "rest = [] \<or> \<not> is_ascii_digit (hd rest)"
  shows "lead3 (run @ rest) = length run"
proof -
  define s where "s = run @ rest"
  have ge: "length run \<le> lead3 s"
    using d l unfolding s_def by (intro lead3_max) simp_all
  have "\<not> length run < lead3 s"
  proof
    assume lt: "length run < lead3 s"
    have "\<forall>i < length (take (lead3 s) s). is_ascii_digit (take (lead3 s) s ! i)"
      using lead3_digits [of s] by (simp only: list_all_length)
    moreover have "length run < length (take (lead3 s) s)"
      using lt lead3_le [of s] by simp
    ultimately have "is_ascii_digit (take (lead3 s) s ! length run)" by blast
    then have dg: "is_ascii_digit (s ! length run)" using lt by simp
    from lt lead3_le [of s] have "length run < length s" by simp
    then have "rest \<noteq> []" by (simp add: s_def)
    then have "s ! length run = hd rest"
      by (simp add: s_def nth_append hd_conv_nth)
    with dg r \<open>rest \<noteq> []\<close> show False by simp
  qed
  with ge show ?thesis by (simp add: s_def)
qed

lemma search_amount_first_match:
  "search amount_re tx = Some (j, m) \<Longrightarrow> first_match grouped_numeral tx (take j tx) m"
  using search_first_match_Some [of amount_re grouped_numeral tx j m] amount_none amount_head
  by blast

lemma search_amount_no_match:
  "search amount_re tx = None \<Longrightarrow> \<not> (\<exists>pre m post. tx = pre @ m @ post \<and> grouped_numeral m)"
  using search_first_match_None [of amount_re grouped_numeral tx] amount_none by blast

lemma search_date_first_match:
  "search date_re tx = Some (j, m) \<Longrightarrow> first_match unicode_date_form tx (take j tx) m"
  using search_first_match_Some [of date_re unicode_date_form tx j m] date_none date_head
  by blast

lemma search_date_no_match:
  "search date_re tx = None \<Longrightarrow> \<not> (\<exists>pre m post. tx = pre @ m @ post \<and> unicode_date_form m)"
  using search_first_match_None [of date_re unicode_date_form tx] date_none by blast

lemma amount_of_first_match:
  assumes "first_match grouped_numeral tx pre m"
  shows "parsed_amount (parse_info tx) = remove_char comma m"
proof -
  from assms have "\<exists>pre m post. tx = pre @ m @ post \<and> grouped_numeral m"
    unfolding first_match_def by blast
  then obtain pre' m' where f: "first_match grouped_numeral tx pre' m'"
    and a: "parsed_amount (parse_info tx) = remove_char comma m'"
    using amount_is_first_match by blast
  from first_match_unique [OF assms f] a show ?thesis by simp
qed

lemma date_shape_mono:
  assumes "\<And>c. c \<in> set m \<Longrightarrow> P c \<Longrightarrow> Q c" and "date_shape P a b m"
  shows "date_shape Q a b m"
proof -
  have sub: "list_all P xs \<Longrightarrow> set xs \<subseteq> set m \<Longrightarrow> list_all Q xs" for xs
    using assms(1) by (auto simp: list_all_iff)
  have "set (take 4 m) \<subseteq> set m" "set (take a (drop 5 m)) \<subseteq> set m" "set (drop (6 + a) m) \<subseteq> set m"
    by (auto dest: in_set_takeD in_set_dropD)
  with assms(2) sub show ?thesis
    unfolding date_shape_def by blast
qed

lemma date_form_unicode: "date_form m \<Longrightarrow> unicode_date_form m"
  unfolding date_form_def unicode_date_form_def
  using date_shape_mono [of m is_ascii_digit unicode_decimal] ascii_digit_is_decimal by blast

lemma unicode_date_form_ascii:
  assumes "\<forall>c \<in> set m. unicode_decimal c \<longrightarrow> is_ascii_digit c" and "unicode_date_form m"
  shows "date_form m"
  using assms(2) date_shape_mono [of m unicode_decimal is_ascii_digit] assms(1)
  unfolding date_form_def unicode_date_form_def by blast

lemma first_match_cong:
  assumes "\<And>pre m post. tx = pre @ m @ post \<Longrightarrow> P m = Q m"
  shows "first_match P tx pre m = first_match Q tx pre m"
  unfolding first_match_def using assms by metis

lemma date_form_has_digit: "date_form m \<Longrightarrow> list_ex is_ascii_digit m"
proof -
  assume "date_form m"
  then have "4 \<le> length m \<and> list_all is_ascii_digit (take 4 m)"
    by (auto simp: date_form_def date_shape_def)
  then have "m \<noteq> [] \<and> is_ascii_digit (hd m)"
    by (cases m) auto
  then show ?thesis by (cases m) auto
qed

lemma no_ascii_digit_no_date:
  assumes "\<not> list_ex is_ascii_digit tx"
  shows "\<not> (\<exists>pre m post. tx = pre @ m @ post \<and> date_form m)"
proof
  assume "\<exists>pre m post. tx = pre @ m @ post \<and> date_form m"
  then obtain pre m post where t: "tx = pre @ m @ post" and "date_form m" by blast
  then have "list_ex is_ascii_digit m" by (simp add: date_form_has_digit)
  with t assms show False by (auto simp: list_ex_iff)
qed

lemma ascii_text_date_forms:
  assumes a: "list_all (\<lambda>c. unicode_decimal c \<longrightarrow> is_ascii_digit c) tx"
    and t: "tx = pre @ m @ post"
  shows "unicode_date_form m = date_form m"
proof -
  from a t have "\<forall>c \<in> set m. unicode_decimal c \<longrightarrow> is_ascii_digit c"
    by (auto simp: list_all_iff)
  then show ?thesis
    using unicode_date_form_ascii date_form_unicode by blast
qed

section \<open>Properties of the text extractor\<close>

lemma read_pages_ok:
  "PageRaises \<notin> set ps \<Longrightarrow> read_pages acc ps = (acc @ concat (map page_text ps), None)"
  by (induction acc ps rule: read_pages.induct) (auto simp: page_text_def)

lemma read_pages_raise:
  "PageRaises \<notin> set ps \<Longrightarrow>
     read_pages acc (ps @ PageRaises # qs) = (acc @ concat (map page_text ps), Some PdfError)"
  by (induction acc ps rule: read_pages.induct) (auto simp: page_text_def)

lemma read_pages_raised:
  "snd (read_pages acc ps) = Some e \<Longrightarrow> e = PdfError \<and> PageRaises \<in> set ps"
  by (induction acc ps rule: read_pages.induct) (auto split: if_splits)

lemma split_at_first_raise:
  "PageRaises \<in> set ps \<Longrightarrow>
     \<exists>qs. ps = takeWhile (\<lambda>q. q \<noteq> PageRaises) ps @ PageRaises # qs"
proof -
  assume "PageRaises \<in> set ps"
  then have "dropWhile (\<lambda>q. q \<noteq> PageRaises) ps \<noteq> []"
    by (simp add: dropWhile_eq_Nil_conv)
  then obtain q qs where d: "dropWhile (\<lambda>q. q \<noteq> PageRaises) ps = q # qs"
    by (cases "dropWhile (\<lambda>q. q \<noteq> PageRaises) ps") auto
  then have "q = PageRaises"
    using hd_dropWhile [of "\<lambda>q. q \<noteq> PageRaises" ps] by fastforce
  with d have "ps = takeWhile (\<lambda>q. q \<noteq> PageRaises) ps @ PageRaises # qs"
    using takeWhile_dropWhile_id [of "\<lambda>q. q \<noteq> PageRaises" ps] by simp
  then show ?thesis ..
qed

lemma extract_text_on_failure:
  assumes "snd (try_extract p) = Some e"
  shows "extract_text_from_pdf p = concat (map page_text (pages_before_failure p))"
proof (cases p)
  case OpenRaises
  then show ?thesis
    by (simp add: extract_text_from_pdf_def try_extract_def pages_before_failure_def)
next
  case (Pages ps)
  with assms have "PageRaises \<in> set ps"
    using read_pages_raised [of "[]" ps e] by (simp add: try_extract_def)
  then obtain qs where ps: "ps = takeWhile (\<lambda>q. q \<noteq> PageRaises) ps @ PageRaises # qs"
    using split_at_first_raise by blast
  have "PageRaises \<notin> set (takeWhile (\<lambda>q. q \<noteq> PageRaises) ps)"
    by (auto dest: set_takeWhileD)
  then have "read_pages [] (takeWhile (\<lambda>q. q \<noteq> PageRaises) ps @ PageRaises # qs) =
      ([] @ concat (map page_text (takeWhile (\<lambda>q. q \<noteq> PageRaises) ps)), Some PdfError)"
    by (rule read_pages_raise)
  with ps have "read_pages [] ps =
      (concat (map page_text (takeWhile (\<lambda>q. q \<noteq> PageRaises) ps)), Some PdfError)"
    by simp
  with Pages show ?thesis
    by (simp add: extract_text_from_pdf_def try_extract_def pages_before_failure_def)
qed

section \<open>Properties of the orchestrator\<close>

lemma pdf_to_images_calls:
  "set (fst (pdf_to_images t d)) \<subseteq> {Rasterize, Preprocess} \<and>
   Rasterize \<in> set (fst (pdf_to_images t d))"
  by (auto simp: pdf_to_images_def split: option.splits)

lemma ocr_loop_calls: "set (fst (ocr_loop t acc imgs)) \<subseteq> {Recognize}"
  by (induction t acc imgs rule: ocr_loop.induct) (auto split: option.splits prod.splits)

lemma process_file_direct:
  "download_ok d \<Longrightarrow> strip (extract_text_from_pdf (text_layer d)) \<noteq> [] \<Longrightarrow>
     process_file t d =
       ([Download, DirectExtract], row_of_text (extract_text_from_pdf (text_layer d)))"
  by (simp add: process_file_def)

lemma process_file_blank:
  "download_ok d \<Longrightarrow> strip (extract_text_from_pdf (text_layer d)) = [] \<Longrightarrow>
     Rasterize \<in> set (fst (process_file t d))"
  using pdf_to_images_calls [of t d]
  by (auto simp: process_file_def split: prod.splits sum.splits)

lemma process_file_unrasterizable:
  "download_ok d \<Longrightarrow> strip (extract_text_from_pdf (text_layer d)) = [] \<Longrightarrow>
   page_images d = None \<Longrightarrow>
     process_file t d = ([Download, DirectExtract, Rasterize], Inl RasterizeError)"
  by (simp add: process_file_def pdf_to_images_def)

lemma pdf_to_images_Some:
  "page_images d = Some images \<Longrightarrow>
     pdf_to_images t d =
       (Rasterize # replicate (length images) Preprocess, Inr (map (binarize t) images))"
  by (simp add: pdf_to_images_def binarize_def threshold_def map_replicate_const)

lemma ocr_loop_all:
  "map (image_to_string t) imgs = map Some texts \<Longrightarrow>
     ocr_loop t acc imgs =
       (replicate (length imgs) Recognize, Inr (acc @ concat (map (\<lambda>s. s @ [LF]) texts)))"
proof (induction imgs arbitrary: acc texts)
  case Nil
  then show ?case by simp
next
  case (Cons img imgs)
  then obtain s ss where t: "texts = s # ss" and s: "image_to_string t img = Some s"
    and ss: "map (image_to_string t) imgs = map Some ss"
    by (cases texts) auto
  from Cons.IH [OF ss, of "acc @ s @ [LF]"] s t show ?case by simp
qed

lemma ocr_loop_stops:
  "map (image_to_string t) ok = map Some texts \<Longrightarrow> image_to_string t bad = None \<Longrightarrow>
     ocr_loop t acc (ok @ bad # later) = (replicate (Suc (length ok)) Recognize, Inl TesseractError)"
proof (induction ok arbitrary: acc texts)
  case Nil
  then show ?case by simp
next
  case (Cons img imgs)
  then obtain s ss where t: "texts = s # ss" and s: "image_to_string t img = Some s"
    and ss: "map (image_to_string t) imgs = map Some ss"
    by (cases texts) auto
  from Cons.IH [OF ss Cons.prems(2), of "acc @ s @ [LF]"] s show ?case by simp
qed

lemma process_file_ocr:
  assumes "download_ok d" "strip (extract_text_from_pdf (text_layer d)) = []"
    "page_images d = Some images"
    "map (\<lambda>img. image_to_string t (binarize t img)) images = map Some texts"
  shows "process_file t d =
     ([Download, DirectExtract, Rasterize] @ replicate (length images) Preprocess @
        replicate (length images) Recognize,
      row_of_text (concat (map (\<lambda>s. s @ [LF]) texts)))"
proof -
  from assms(4) have "map (image_to_string t) (map (binarize t) images) = map Some texts"
    by (simp add: comp_def)
  then have "ocr_images t (map (binarize t) images) =
      (replicate (length images) Recognize, Inr (concat (map (\<lambda>s. s @ [LF]) texts)))"
    unfolding ocr_images_def using ocr_loop_all [of t "map (binarize t) images" texts "[]"] by simp
  with assms(1-3) show ?thesis
    by (simp add: process_file_def pdf_to_images_Some)
qed

lemma process_file_ocr_fails:
  assumes "download_ok d" "strip (extract_text_from_pdf (text_layer d)) = []"
    "page_images d = Some (ok @ bad # later)"
    "map (\<lambda>img. image_to_string t (binarize t img)) ok = map Some texts"
    "image_to_string t (binarize t bad) = None"
  shows "process_file t d =
     ([Download, DirectExtract, Rasterize] @ replicate (length (ok @ bad # later)) Preprocess @
        replicate (Suc (length ok)) Recognize,
      Inl TesseractError)"
proof -
  from assms(4) have "map (image_to_string t) (map (binarize t) ok) = map Some texts"
    by (simp add: comp_def)
  then have "ocr_loop t [] (map (binarize t) ok @ binarize t bad # map (binarize t) later) =
      (replicate (Suc (length (map (binarize t) ok))) Recognize, Inl TesseractError)"
    using assms(5) by (rule ocr_loop_stops)
  then have "ocr_images t (map (binarize t) (ok @ bad # later)) =
      (replicate (Suc (length ok)) Recognize, Inl TesseractError)"
    by (simp add: ocr_images_def)
  with assms(1-3) show ?thesis
    by (simp add: process_file_def pdf_to_images_Some)
qed

lemma header_written: "writerow [] CSV_COLUMNS = Inr [CSV_COLUMNS]"
  by (simp add: writerow_def CSV_COLUMNS_def is_surrogate_def)

lemma process_pdfs_eq:
  "process_pdfs t files =
     process_loop t files \<lparr>rows = [CSV_COLUMNS], calls = [], raised = None\<rparr>"
  by (simp add: process_pdfs_def header_written)

lemma written_row: "written t f \<Longrightarrow> \<not> isl (snd (process_file t f))"
  by (simp add: written_def split: sum.splits)

lemma process_loop_ok:
  "\<forall>f \<in> set files. written t f \<Longrightarrow>
     rows (process_loop t files st) =
       rows st @ map (\<lambda>f. projr (snd (process_file t f))) files \<and>
     raised (process_loop t files st) = raised st"
  by (induction t files st rule: process_loop.induct)
    (auto simp: written_def writerow_def split: prod.splits sum.splits)

lemma process_loop_abort:
  "\<forall>f \<in> set pre. written t f \<Longrightarrow> snd (process_file t d) = Inl e \<Longrightarrow>
     rows (process_loop t (pre @ d # post) st) =
       rows st @ map (\<lambda>f. projr (snd (process_file t f))) pre \<and>
     raised (process_loop t (pre @ d # post) st) = Some e"
  by (induction pre arbitrary: st)
    (auto simp: written_def writerow_def split: prod.splits sum.splits)

lemma process_loop_raised_None:
  "raised (process_loop t files st) = None \<Longrightarrow> \<forall>f \<in> set files. written t f"
proof (induction files arbitrary: st)
  case Nil
  then show ?case by simp
next
  case (Cons f fs)
  obtain cs r where pf: "process_file t f = (cs, r)"
    by (cases "process_file t f")
  show ?case
  proof (cases r)
    case (Inl e)
    with pf Cons.prems show ?thesis by simp
  next
    case (Inr row)
    show ?thesis
    proof (cases "list_ex (list_ex is_surrogate) row")
      case True
      with pf Inr Cons.prems show ?thesis by (simp add: writerow_def)
    next
      case False
      with pf Inr have w: "written t f" by (simp add: written_def)
      from False pf Inr Cons.prems
      have "raised (process_loop t fs (st\<lparr>rows := rows st @ [row], calls := calls st @ cs\<rparr>)) = None"
        by (simp add: writerow_def)
      then have "\<forall>f \<in> set fs. written t f" by (rule Cons.IH)
      with w show ?thesis by simp
    qed
  qed
qed

lemma process_pdfs_completed:
  assumes "raised (process_pdfs t files) = None"
  shows "rows (process_pdfs t files) =
           CSV_COLUMNS # map (\<lambda>f. projr (snd (process_file t f))) files"
proof -
  from assms have "\<forall>f \<in> set files. written t f"
    unfolding process_pdfs_eq by (rule process_loop_raised_None)
  then show ?thesis
    unfolding process_pdfs_eq using process_loop_ok by fastforce
qed

text \<open>A row built from three texts without surrogates is written.\<close>

lemma writerow_built:
  assumes "\<not> list_ex is_surrogate d" "\<not> list_ex is_surrogate a" "\<not> list_ex is_surrogate p"
  shows "writerow out ((replicate 44 [])[0 := d, 15 := a, 33 := p]) =
           Inr (out @ [(replicate 44 [])[0 := d, 15 := a, 33 := p]])"
proof -
  have "set ((replicate 44 [])[0 := d, 15 := a, 33 := p]) \<subseteq> {p, a, d, []}"
    using set_update_subset_insert [of "(replicate 44 [])[0 := d, 15 := a]" 33 p]
      set_update_subset_insert [of "(replicate 44 [])[0 := d]" 15 a]
      set_update_subset_insert [of "replicate 44 []" 0 d]
    by auto
  with assms have "\<not> list_ex (list_ex is_surrogate) ((replicate 44 [])[0 := d, 15 := a, 33 := p])"
    by (auto simp: list_ex_iff)
  then show ?thesis by (simp add: writerow_def)
qed

section \<open>A worked batch\<close>

lemma example_direct:
  "process_file \<lparr>grayscale = id, image_to_string = Some\<rparr>
       \<lparr>download_ok = True, text_layer = Pages [PageText (str ''A 1'')],
        page_images = imgs\<rparr> =
     ([Download, DirectExtract],
      Inr ((replicate 44 [])[0 := replace_char hyphen slash [], 15 := str ''1'', 33 := str ''A 1'']))"
proof -
  have "parse_info (str ''A 1'' @ [LF]) = ([], str ''1'', str ''A 1'')"
    by (simp add: eval_rules)
  moreover have "strip (str ''A 1'' @ [LF]) \<noteq> []"
    by (simp add: eval_rules)
  ultimately show ?thesis
    using build_csv_row_eq [of "[]" "str ''1''" "str ''A 1''"]
    by (simp add: process_file_def extract_text_from_pdf_def try_extract_def row_of_text_def
          str_def)
qed

lemma example_written:
  "writerow out ((replicate 44 [])[0 := replace_char hyphen slash [], 15 := str ''1'', 33 := str ''A 1'']) =
     Inr (out @ [(replicate 44 [])[0 := replace_char hyphen slash [], 15 := str ''1'', 33 := str ''A 1'']])"
  by (rule writerow_built) (simp_all add: replace_char_def str_def is_surrogate_def)

text \<open>
  A file whose text is a lone surrogate: its row is not written, and the batch ends with
  the header only.
\<close>

lemma example_surrogate:
  "process_pdfs \<lparr>grayscale = id, image_to_string = Some\<rparr>
       [\<lparr>download_ok = True, text_layer = Pages [PageText [0xD800]],
         page_images = Some [[0, 200]]\<rparr>,
        \<lparr>download_ok = True, text_layer = Pages [PageText (str ''A 1'')],
         page_images = Some [[0, 200]]\<rparr>] =
     \<lparr>rows = [CSV_COLUMNS], calls = [Download, DirectExtract],
      raised = Some UnicodeEncodeError\<rparr>"
proof -
  let ?row = "(replicate 44 [])[0 := replace_char hyphen slash [], 15 := [], 33 := [0xD800]]"
  have p: "parse_info ([0xD800] @ [LF]) = ([], [], [0xD800])"
    by (simp add: eval_rules)
  have s: "strip ([0xD800] @ [LF]) \<noteq> []"
    by (simp add: eval_rules)
  have f: "process_file \<lparr>grayscale = id, image_to_string = Some\<rparr>
       \<lparr>download_ok = True, text_layer = Pages [PageText [0xD800]],
        page_images = Some [[0, 200]]\<rparr> = ([Download, DirectExtract], Inr ?row)"
    using p s build_csv_row_eq [of "[]" "[]" "[0xD800]"]
    by (simp add: process_file_def extract_text_from_pdf_def try_extract_def row_of_text_def)
  have "?row ! 33 = [0xD800]" by simp
  moreover have "?row ! 33 \<in> set ?row" by (rule nth_mem) simp
  ultimately have "[0xD800] \<in> set ?row" by simp
  then have "list_ex (list_ex is_surrogate) ?row"
    unfolding list_ex_iff by (rule bexI [rotated]) (simp add: is_surrogate_def)
  then have "writerow [CSV_COLUMNS] ?row = Inl UnicodeEncodeError"
    by (simp add: writerow_def)
  with f show ?thesis
    by (simp add: process_pdfs_eq)
qed

section \<open>The claims\<close>

text \<open>
  C1 (as amended). A rasterization failure is not confined to its document: it leaves
  \<open>process_pdfs\<close>. When the files before the failing one, as a batch of their own,
  run to the end (each yields a row and the row is written), the output holds the
  header and the rows of exactly those files, in input order, and the run ends with the
  rasterization error; the failing file and the files after it contribute no row.
\<close>

theorem C1_rasterize_failure_aborts:
  "raised (process_pdfs t pre) = None \<Longrightarrow>
   download_ok d \<Longrightarrow> strip (extract_text_from_pdf (text_layer d)) = [] \<Longrightarrow>
   page_images d = None \<Longrightarrow>
     raised (process_pdfs t (pre @ d # post)) = Some RasterizeError \<and>
     rows (process_pdfs t (pre @ d # post)) = rows (process_pdfs t pre) \<and>
     rows (process_pdfs t pre) = CSV_COLUMNS # map (\<lambda>f. projr (snd (process_file t f))) pre"
proof -
  assume pre: "raised (process_pdfs t pre) = None"
    and d: "download_ok d" "strip (extract_text_from_pdf (text_layer d)) = []"
      "page_images d = None"
  from pre have w: "\<forall>f \<in> set pre. written t f"
    unfolding process_pdfs_eq by (rule process_loop_raised_None)
  from pre have r: "rows (process_pdfs t pre) =
      CSV_COLUMNS # map (\<lambda>f. projr (snd (process_file t f))) pre"
    by (rule process_pdfs_completed)
  from d have "snd (process_file t d) = Inl RasterizeError"
    by (simp add: process_file_unrasterizable)
  with w have "rows (process_pdfs t (pre @ d # post)) =
      CSV_COLUMNS # map (\<lambda>f. projr (snd (process_file t f))) pre \<and>
      raised (process_pdfs t (pre @ d # post)) = Some RasterizeError"
    unfolding process_pdfs_eq using process_loop_abort by fastforce
  with r show ?thesis by simp
qed

theorem C1_rasterize_failure_aborts_witness:
  "raised (process_pdfs \<lparr>grayscale = id, image_to_string = Some\<rparr>
       [\<lparr>download_ok = True, text_layer = Pages [PageText (str ''A 1'')],
         page_images = Some [[0, 200]]\<rparr>]) = None \<and>
   strip (extract_text_from_pdf (Pages [PageNone])) = [] \<and>
   raised (process_pdfs \<lparr>grayscale = id, image_to_string = Some\<rparr>
       [\<lparr>download_ok = True, text_layer = Pages [PageText (str ''A 1'')],
         page_images = Some [[0, 200]]\<rparr>,
        \<lparr>download_ok = True, text_layer = Pages [PageNone], page_images = None\<rparr>,
        \<lparr>download_ok = True, text_layer = Pages [PageText (str ''A 1'')],
         page_images = Some []\<rparr>]) = Some RasterizeError \<and>
   length (rows (process_pdfs \<lparr>grayscale = id, image_to_string = Some\<rparr>
       [\<lparr>download_ok = True, text_layer = Pages [PageText (str ''A 1'')],
         page_images = Some [[0, 200]]\<rparr>,
        \<lparr>download_ok = True, text_layer = Pages [PageNone], page_images = None\<rparr>,
        \<lparr>download_ok = True, text_layer = Pages [PageText (str ''A 1'')],
         page_images = Some []\<rparr>])) = 2"
proof -
  have r1: "raised (process_pdfs \<lparr>grayscale = id, image_to_string = Some\<rparr>
       [\<lparr>download_ok = True, text_layer = Pages [PageText (str ''A 1'')],
         page_images = Some [[0, 200]]\<rparr>]) = None"
    by (simp add: process_pdfs_eq example_direct example_written)
  have s2: "strip (extract_text_from_pdf (Pages [PageNone])) = []"
    by (simp add: extract_text_from_pdf_def try_extract_def strip_def)
  from r1 s2 show ?thesis
    using C1_rasterize_failure_aborts [of "\<lparr>grayscale = id, image_to_string = Some\<rparr>"
      "[\<lparr>download_ok = True, text_layer = Pages [PageText (str ''A 1'')],
         page_images = Some [[0, 200]]\<rparr>]"
      "\<lparr>download_ok = True, text_layer = Pages [PageNone], page_images = None\<rparr>"
      "[\<lparr>download_ok = True, text_layer = Pages [PageText (str ''A 1'')],
         page_images = Some []\<rparr>]"]
    by simp
qed

text \<open>
  The claim as stated fails on a batch of three files of which the second has no text
  layer and cannot be rasterized: the output holds the header and the row of the first
  file only, and the row of the third file is not in it.
\<close>

theorem C1_counterexample:
  "process_pdfs \<lparr>grayscale = id, image_to_string = Some\<rparr>
       [\<lparr>download_ok = True, text_layer = Pages [PageText (str ''A 1'')],
         page_images = Some [[0, 200]]\<rparr>,
        \<lparr>download_ok = True, text_layer = Pages [PageNone], page_images = None\<rparr>,
        \<lparr>download_ok = True, text_layer = Pages [PageText (str ''B 2'')],
         page_images = Some [[0, 200]]\<rparr>] =
       \<lparr>rows = [CSV_COLUMNS, (replicate 44 [])[0 := [], 15 := str ''1'', 33 := str ''A 1'']],
        calls = [Download, DirectExtract, Download, DirectExtract, Rasterize],
        raised = Some RasterizeError\<rparr> \<and>
   process_file \<lparr>grayscale = id, image_to_string = Some\<rparr>
       \<lparr>download_ok = True, text_layer = Pages [PageText (str ''B 2'')],
        page_images = Some [[0, 200]]\<rparr> =
     ([Download, DirectExtract],
      Inr ((replicate 44 [])[0 := [], 15 := str ''2'', 33 := str ''B 2''])) \<and>
   (replicate 44 [])[0 := [], 15 := str ''2'', 33 := str ''B 2''] \<notin>
     set [CSV_COLUMNS, (replicate 44 [])[0 := [], 15 := str ''1'', 33 := str ''A 1'']]"
proof -
  let ?r1 = "(replicate 44 [])[0 := [], 15 := str ''1'', 33 := str ''A 1'']"
  let ?r3 = "(replicate 44 [])[0 := [], 15 := str ''2'', 33 := str ''B 2'']"
  have b1: "build_csv_row [] (str ''1'') (str ''A 1'') = Inr ?r1"
    using build_csv_row_eq [of "[]" "str ''1''" "str ''A 1''"] by (simp add: replace_char_def)
  have b3: "build_csv_row [] (str ''2'') (str ''B 2'') = Inr ?r3"
    using build_csv_row_eq [of "[]" "str ''2''" "str ''B 2''"] by (simp add: replace_char_def)
  have p1: "parse_info (str ''A 1'' @ [LF]) = ([], str ''1'', str ''A 1'')"
    by (simp add: eval_rules)
  have p3: "parse_info (str ''B 2'' @ [LF]) = ([], str ''2'', str ''B 2'')"
    by (simp add: eval_rules)
  have s1: "strip (str ''A 1'' @ [LF]) \<noteq> []" and s3: "strip (str ''B 2'' @ [LF]) \<noteq> []"
    and s2: "strip [] = []"
    by (simp_all add: eval_rules)
  have w1: "writerow [CSV_COLUMNS] ?r1 = Inr ([CSV_COLUMNS] @ [?r1])"
    by (rule writerow_built) (simp_all add: str_def is_surrogate_def)
  have f3: "process_file \<lparr>grayscale = id, image_to_string = Some\<rparr>
       \<lparr>download_ok = True, text_layer = Pages [PageText (str ''B 2'')],
        page_images = Some [[0, 200]]\<rparr> = ([Download, DirectExtract], Inr ?r3)"
    using s3 p3 b3
    by (simp add: process_file_def extract_text_from_pdf_def try_extract_def row_of_text_def
          str_def)
  have run: "process_pdfs \<lparr>grayscale = id, image_to_string = Some\<rparr>
       [\<lparr>download_ok = True, text_layer = Pages [PageText (str ''A 1'')],
         page_images = Some [[0, 200]]\<rparr>,
        \<lparr>download_ok = True, text_layer = Pages [PageNone], page_images = None\<rparr>,
        \<lparr>download_ok = True, text_layer = Pages [PageText (str ''B 2'')],
         page_images = Some [[0, 200]]\<rparr>] =
       \<lparr>rows = [CSV_COLUMNS, ?r1],
        calls = [Download, DirectExtract, Download, DirectExtract, Rasterize],
        raised = Some RasterizeError\<rparr>"
    using s1 s2 p1 b1 w1
    by (simp add: process_pdfs_eq process_file_def pdf_to_images_def
          extract_text_from_pdf_def try_extract_def row_of_text_def str_def)
  have "?r3 ! 15 \<noteq> ?r1 ! 15"
    by (simp add: str_def)
  then have n1: "?r3 \<noteq> ?r1"
    by metis
  have "?r3 ! 15 \<noteq> CSV_COLUMNS ! 15"
    by (simp add: str_def CSV_COLUMNS_def)
  then have n2: "?r3 \<noteq> CSV_COLUMNS"
    by metis
  from f3 run n1 n2 show ?thesis
    by simp
qed

text \<open>
  C2. The amount field is taken from the first substring of the text that is a
  grouped-digit numeral (no such substring starts further left, and of those that start
  there it is the longest), with its commas removed; it then consists of ASCII digits
  only. When that first substring is 12,345 the amount is 12345, and when it is
  1,234,567 the amount is 1234567. When no substring of the text is a grouped-digit
  numeral, the amount is the empty string.
\<close>

theorem C2_amount_first_match:
  "((\<exists>pre m post. tx = pre @ m @ post \<and> grouped_numeral m) \<longrightarrow>
      (\<exists>pre m. first_match grouped_numeral tx pre m \<and>
         parsed_amount (parse_info tx) = remove_char comma m \<and>
         list_all is_ascii_digit (parsed_amount (parse_info tx)))) \<and>
   (\<not> (\<exists>pre m post. tx = pre @ m @ post \<and> grouped_numeral m) \<longrightarrow>
      parsed_amount (parse_info tx) = []) \<and>
   (first_match grouped_numeral tx pre1 (str ''12,345'') \<longrightarrow>
      parsed_amount (parse_info tx) = str ''12345'') \<and>
   (first_match grouped_numeral tx pre2 (str ''1,234,567'') \<longrightarrow>
      parsed_amount (parse_info tx) = str ''1234567'')"
proof (intro conjI impI)
  assume "\<exists>pre m post. tx = pre @ m @ post \<and> grouped_numeral m"
  then obtain pre m where f: "first_match grouped_numeral tx pre m"
    and a: "parsed_amount (parse_info tx) = remove_char comma m"
    using amount_is_first_match by blast
  from f have "grouped_numeral m" unfolding first_match_def by blast
  then have "list_all is_ascii_digit (remove_char comma m)" by (rule grouped_numeral_digits)
  with f a show "\<exists>pre m. first_match grouped_numeral tx pre m \<and>
         parsed_amount (parse_info tx) = remove_char comma m \<and>
         list_all is_ascii_digit (parsed_amount (parse_info tx))"
    by auto
next
  assume "\<not> (\<exists>pre m post. tx = pre @ m @ post \<and> grouped_numeral m)"
  then show "parsed_amount (parse_info tx) = []" by (rule amount_no_match)
next
  assume "first_match grouped_numeral tx pre1 (str ''12,345'')"
  then have "parsed_amount (parse_info tx) = remove_char comma (str ''12,345'')"
    by (rule amount_of_first_match)
  then show "parsed_amount (parse_info tx) = str ''12345''"
    by (simp add: remove_char_def str_def comma_def)
next
  assume "first_match grouped_numeral tx pre2 (str ''1,234,567'')"
  then have "parsed_amount (parse_info tx) = remove_char comma (str ''1,234,567'')"
    by (rule amount_of_first_match)
  then show "parsed_amount (parse_info tx) = str ''1234567''"
    by (simp add: remove_char_def str_def comma_def)
qed

theorem C2_amount_first_match_witness:
  "first_match grouped_numeral (str ''Total: 12,345 yen'') (str ''Total: '') (str ''12,345'') \<and>
   parsed_amount (parse_info (str ''Total: 12,345 yen'')) = str ''12345'' \<and>
   list_all is_ascii_digit (parsed_amount (parse_info (str ''Total: 12,345 yen''))) \<and>
   first_match grouped_numeral (str ''1,234,567'') [] (str ''1,234,567'') \<and>
   parsed_amount (parse_info (str ''1,234,567'')) = str ''1234567'' \<and>
   \<not> (\<exists>pre m post. str ''no amount'' = pre @ m @ post \<and> grouped_numeral m) \<and>
   parsed_amount (parse_info (str ''no amount'')) = []"
proof -
  have "search amount_re (str ''Total: 12,345 yen'') = Some (7, str ''12,345'')"
    by (simp add: eval_rules)
  then have "first_match grouped_numeral (str ''Total: 12,345 yen'')
      (take 7 (str ''Total: 12,345 yen'')) (str ''12,345'')"
    by (rule search_amount_first_match)
  then have f1: "first_match grouped_numeral (str ''Total: 12,345 yen'') (str ''Total: '')
      (str ''12,345'')"
    by (simp add: str_def)
  have "search amount_re (str ''1,234,567'') = Some (0, str ''1,234,567'')"
    by (simp add: eval_rules)
  then have "first_match grouped_numeral (str ''1,234,567'') (take 0 (str ''1,234,567''))
      (str ''1,234,567'')"
    by (rule search_amount_first_match)
  then have f2: "first_match grouped_numeral (str ''1,234,567'') [] (str ''1,234,567'')"
    by simp
  have "search amount_re (str ''no amount'') = None"
    by (simp add: eval_rules)
  then have n: "\<not> (\<exists>pre m post. str ''no amount'' = pre @ m @ post \<and> grouped_numeral m)"
    by (rule search_amount_no_match)
  from f1 have e1: "\<exists>pre m post. str ''Total: 12,345 yen'' = pre @ m @ post \<and> grouped_numeral m"
    unfolding first_match_def by blast
  show ?thesis
    using C2_amount_first_match [of "str ''Total: 12,345 yen''" "str ''Total: ''" "[]"]
      C2_amount_first_match [of "str ''1,234,567''" "[]" "[]"]
      C2_amount_first_match [of "str ''no amount''" "[]" "[]"] f1 f2 n e1
    by blast
qed

text \<open>
  C3 (as amended). For a file that was downloaded, the rasterizer is called if and only
  if the directly extracted text is empty once stripped. When that text is not empty,
  the calls made for the file are the download and the direct extraction only, and the
  row is built from the extracted text. When it is empty and rasterization fails,
  nothing is preprocessed or recognized and the failure leaves the loop body. When it
  is empty and rasterization gives the page images, each image is preprocessed once,
  then the binarized images are recognized once each in page order: if every
  recognition gives a text, the row is built from these texts, each followed by a
  newline, and if one fails the recognition stops there and the failure leaves the
  loop body.
\<close>

theorem C3_ocr_path:
  "download_ok d \<Longrightarrow>
     (Rasterize \<in> set (fst (process_file t d)) \<longleftrightarrow>
        strip (extract_text_from_pdf (text_layer d)) = []) \<and>
     (strip (extract_text_from_pdf (text_layer d)) \<noteq> [] \<longrightarrow>
        process_file t d =
          ([Download, DirectExtract],
           case parse_info (extract_text_from_pdf (text_layer d)) of
             (date, amount, partner) \<Rightarrow> build_csv_row date amount partner)) \<and>
     (strip (extract_text_from_pdf (text_layer d)) = [] \<and> page_images d = None \<longrightarrow>
        process_file t d = ([Download, DirectExtract, Rasterize], Inl RasterizeError)) \<and>
     (strip (extract_text_from_pdf (text_layer d)) = [] \<and> page_images d = Some images \<and>
      map (\<lambda>img. image_to_string t (binarize t img)) images = map Some texts \<longrightarrow>
        process_file t d =
          ([Download, DirectExtract, Rasterize] @ replicate (length images) Preprocess @
             replicate (length images) Recognize,
           case parse_info (concat (map (\<lambda>s. s @ [LF]) texts)) of
             (date, amount, partner) \<Rightarrow> build_csv_row date amount partner)) \<and>
     (strip (extract_text_from_pdf (text_layer d)) = [] \<and>
      page_images d = Some (ok @ bad # later) \<and>
      map (\<lambda>img. image_to_string t (binarize t img)) ok = map Some oktexts \<and>
      image_to_string t (binarize t bad) = None \<longrightarrow>
        process_file t d =
          ([Download, DirectExtract, Rasterize] @
             replicate (length (ok @ bad # later)) Preprocess @
             replicate (Suc (length ok)) Recognize,
           Inl TesseractError))"
proof -
  assume dl: "download_ok d"
  have 1: "Rasterize \<in> set (fst (process_file t d)) \<longleftrightarrow>
        strip (extract_text_from_pdf (text_layer d)) = []"
  proof (cases "strip (extract_text_from_pdf (text_layer d)) = []")
    case True
    with dl show ?thesis using process_file_blank [of d t] by simp
  next
    case False
    with dl show ?thesis using process_file_direct [of d t] by simp
  qed
  have 2: "strip (extract_text_from_pdf (text_layer d)) \<noteq> [] \<longrightarrow>
        process_file t d =
          ([Download, DirectExtract],
           case parse_info (extract_text_from_pdf (text_layer d)) of
             (date, amount, partner) \<Rightarrow> build_csv_row date amount partner)"
    using dl process_file_direct [of d t] by (simp add: row_of_text_def)
  have 3: "strip (extract_text_from_pdf (text_layer d)) = [] \<and> page_images d = None \<longrightarrow>
        process_file t d = ([Download, DirectExtract, Rasterize], Inl RasterizeError)"
    using dl process_file_unrasterizable [of d t] by simp
  have 4: "strip (extract_text_from_pdf (text_layer d)) = [] \<and> page_images d = Some images \<and>
      map (\<lambda>img. image_to_string t (binarize t img)) images = map Some texts \<longrightarrow>
        process_file t d =
          ([Download, DirectExtract, Rasterize] @ replicate (length images) Preprocess @
             replicate (length images) Recognize,
           case parse_info (concat (map (\<lambda>s. s @ [LF]) texts)) of
             (date, amount, partner) \<Rightarrow> build_csv_row date amount partner)"
    using dl process_file_ocr [of d images t texts] by (simp add: row_of_text_def)
  have 5: "strip (extract_text_from_pdf (text_layer d)) = [] \<and>
      page_images d = Some (ok @ bad # later) \<and>
      map (\<lambda>img. image_to_string t (binarize t img)) ok = map Some oktexts \<and>
      image_to_string t (binarize t bad) = None \<longrightarrow>
        process_file t d =
          ([Download, DirectExtract, Rasterize] @
             replicate (length (ok @ bad # later)) Preprocess @
             replicate (Suc (length ok)) Recognize,
           Inl TesseractError)"
    using dl process_file_ocr_fails [of d ok bad later t oktexts] by blast
  from 1 2 3 4 5 show ?thesis by blast
qed

theorem C3_ocr_path_witness:
  "strip (extract_text_from_pdf (Pages [PageText (str ''A 1'')])) \<noteq> [] \<and>
   fst (process_file \<lparr>grayscale = id, image_to_string = Some\<rparr>
     \<lparr>download_ok = True, text_layer = Pages [PageText (str ''A 1'')],
      page_images = Some [[0, 200]]\<rparr>) = [Download, DirectExtract] \<and>
   strip (extract_text_from_pdf (Pages [PageNone])) = [] \<and>
   map (\<lambda>img. image_to_string \<lparr>grayscale = id, image_to_string = Some\<rparr>
          (binarize \<lparr>grayscale = id, image_to_string = Some\<rparr> img)) [[0, 200], [130]] =
     map Some [[0, 255], [255]] \<and>
   fst (process_file \<lparr>grayscale = id, image_to_string = Some\<rparr>
     \<lparr>download_ok = True, text_layer = Pages [PageNone],
      page_images = Some [[0, 200], [130]]\<rparr>) =
     [Download, DirectExtract, Rasterize, Preprocess, Preprocess, Recognize, Recognize] \<and>
   process_file \<lparr>grayscale = id, image_to_string = (\<lambda>b. if b = [255] then None else Some b)\<rparr>
     \<lparr>download_ok = True, text_layer = Pages [PageNone],
      page_images = Some [[0, 200], [130], [7]]\<rparr> =
     ([Download, DirectExtract, Rasterize, Preprocess, Preprocess, Preprocess, Recognize, Recognize],
      Inl TesseractError) \<and>
   process_file \<lparr>grayscale = id, image_to_string = Some\<rparr>
     \<lparr>download_ok = True, text_layer = Pages [PageNone], page_images = None\<rparr> =
     ([Download, DirectExtract, Rasterize], Inl RasterizeError)"
  using
    C3_ocr_path [where d = "\<lparr>download_ok = True, text_layer = Pages [PageText (str ''A 1'')],
        page_images = Some [[0, 200]]\<rparr>"
      and t = "\<lparr>grayscale = id, image_to_string = Some\<rparr>"]
    C3_ocr_path [where d = "\<lparr>download_ok = True, text_layer = Pages [PageNone],
        page_images = Some [[0, 200], [130]]\<rparr>"
      and t = "\<lparr>grayscale = id, image_to_string = Some\<rparr>"
      and images = "[[0, 200], [130]]" and texts = "[[0, 255], [255]]"]
    C3_ocr_path [where d = "\<lparr>download_ok = True, text_layer = Pages [PageNone],
        page_images = Some [[0, 200], [130], [7]]\<rparr>"
      and t = "\<lparr>grayscale = id, image_to_string = (\<lambda>b. if b = [255] then None else Some b)\<rparr>"
      and ok = "[[0, 200]]" and bad = "[130]" and later = "[[7]]" and oktexts = "[[0, 255]]"]
    C3_ocr_path [where d = "\<lparr>download_ok = True, text_layer = Pages [PageNone],
        page_images = None\<rparr>"
      and t = "\<lparr>grayscale = id, image_to_string = Some\<rparr>"]
  by (simp add: binarize_def extract_text_from_pdf_def try_extract_def strip_def isspace_def
        str_def LF_def)

text \<open>
  The claim as stated, with preprocessing and recognition among what is invoked whenever
  the extracted text is empty, fails for a file without text layer that cannot be
  rasterized: the text is empty, the rasterizer is called, and nothing is preprocessed
  or recognized.
\<close>

theorem C3_counterexample:
  "strip (extract_text_from_pdf (Pages [PageNone])) = [] \<and>
   process_file \<lparr>grayscale = id, image_to_string = Some\<rparr>
     \<lparr>download_ok = True, text_layer = Pages [PageNone], page_images = None\<rparr> =
     ([Download, DirectExtract, Rasterize], Inl RasterizeError) \<and>
   Preprocess \<notin> set [Download, DirectExtract, Rasterize] \<and>
   Recognize \<notin> set [Download, DirectExtract, Rasterize]"
  by (simp add: process_file_def pdf_to_images_def extract_text_from_pdf_def try_extract_def
        strip_def)

text \<open>
  C4 (as amended). When the reader fails during direct extraction, the extractor
  returns normally, and what it returns is the text of the pages read before the
  failure; this is the empty string when the file cannot be opened. The caller goes on
  to the rasterizer exactly when that text is empty once stripped.
\<close>

theorem C4_failure_keeps_text:
  "snd (try_extract p) = Some e \<Longrightarrow>
     extract_text_from_pdf p = concat (map page_text (pages_before_failure p)) \<and>
     (p = OpenRaises \<longrightarrow> extract_text_from_pdf p = []) \<and>
     (download_ok d \<and> text_layer d = p \<longrightarrow>
        (Rasterize \<in> set (fst (process_file t d)) \<longleftrightarrow>
           strip (concat (map page_text (pages_before_failure p))) = []))"
proof -
  assume a: "snd (try_extract p) = Some e"
  then have 1: "extract_text_from_pdf p = concat (map page_text (pages_before_failure p))"
    by (rule extract_text_on_failure)
  have 2: "p = OpenRaises \<longrightarrow> extract_text_from_pdf p = []"
    by (simp add: extract_text_from_pdf_def try_extract_def)
  have 3: "download_ok d \<and> text_layer d = p \<longrightarrow>
        (Rasterize \<in> set (fst (process_file t d)) \<longleftrightarrow>
           strip (concat (map page_text (pages_before_failure p))) = [])"
  proof (cases "strip (extract_text_from_pdf p) = []")
    case True
    then show ?thesis using process_file_blank [of d t] 1 by auto
  next
    case False
    then show ?thesis using process_file_direct [of d t] 1 by auto
  qed
  from 1 2 3 show ?thesis by blast
qed

theorem C4_failure_keeps_text_witness:
  "snd (try_extract (Pages [PageText (str ''ACME''), PageNone, PageRaises, PageText (str ''x'')])) =
     Some PdfError \<and>
   extract_text_from_pdf (Pages [PageText (str ''ACME''), PageNone, PageRaises, PageText (str ''x'')]) =
     str ''ACME'' @ [LF] \<and>
   Rasterize \<notin> set (fst (process_file \<lparr>grayscale = id, image_to_string = Some\<rparr>
     \<lparr>download_ok = True,
      text_layer = Pages [PageText (str ''ACME''), PageNone, PageRaises, PageText (str ''x'')],
      page_images = Some [[0, 200]]\<rparr>)) \<and>
   snd (try_extract OpenRaises) = Some PdfError \<and>
   extract_text_from_pdf OpenRaises = [] \<and>
   Rasterize \<in> set (fst (process_file \<lparr>grayscale = id, image_to_string = Some\<rparr>
     \<lparr>download_ok = True, text_layer = OpenRaises, page_images = Some [[0, 200]]\<rparr>))"
  using C4_failure_keeps_text [of
      "Pages [PageText (str ''ACME''), PageNone, PageRaises, PageText (str ''x'')]" PdfError
      "\<lparr>download_ok = True,
        text_layer = Pages [PageText (str ''ACME''), PageNone, PageRaises, PageText (str ''x'')],
        page_images = Some [[0, 200]]\<rparr>"
      "\<lparr>grayscale = id, image_to_string = Some\<rparr>"]
    C4_failure_keeps_text [of OpenRaises PdfError
      "\<lparr>download_ok = True, text_layer = OpenRaises, page_images = Some [[0, 200]]\<rparr>"
      "\<lparr>grayscale = id, image_to_string = Some\<rparr>"]
  by (simp add: try_extract_def pages_before_failure_def page_text_def eval_rules)

text \<open>
  The claim as stated fails when the reader fails after a page with text: the
  extractor returns that page's text, not the empty string, and the caller does not
  go on to the rasterizer.
\<close>

theorem C4_counterexample:
  "snd (try_extract (Pages [PageText (str ''ACME''), PageRaises])) = Some PdfError \<and>
   extract_text_from_pdf (Pages [PageText (str ''ACME''), PageRaises]) = str ''ACME'' @ [LF] \<and>
   extract_text_from_pdf (Pages [PageText (str ''ACME''), PageRaises]) \<noteq> [] \<and>
   fst (process_file \<lparr>grayscale = id, image_to_string = Some\<rparr>
          \<lparr>download_ok = True, text_layer = Pages [PageText (str ''ACME''), PageRaises],
           page_images = Some [[0, 200]]\<rparr>) = [Download, DirectExtract]"
  by (simp add: process_file_def extract_text_from_pdf_def try_extract_def eval_rules)

text \<open>
  C5. For every date, amount and partner, present or empty, the row builder returns a
  row, and the row has as many cells as the column schema, which has 44 labels.
\<close>

theorem C5_row_length:
  "\<exists>row. build_csv_row date amount partner = Inr row \<and>
         length row = length CSV_COLUMNS \<and> length CSV_COLUMNS = 44"
  by (simp add: build_csv_row_eq length_CSV_COLUMNS)

theorem C5_row_length_witness:
  "\<exists>row. build_csv_row [] (str ''12345'') [] = Inr row \<and>
         length row = length CSV_COLUMNS \<and> length CSV_COLUMNS = 44"
  using C5_row_length [of "[]" "str ''12345''" "[]"] by simp

text \<open>
  C6. The cell of the row under the date label holds the date with every hyphen replaced
  by a slash and every other character as it was, so it is as long as the date:
  2024-03-15 gives 2024/03/15, and 2024/3/1 stays 2024/3/1.
\<close>

theorem C6_date_cell:
  "(\<exists>row. build_csv_row date amount partner = Inr row \<and>
          CSV_COLUMNS ! 0 = date_label \<and>
          row ! 0 = map (\<lambda>c. if c = hyphen then slash else c) date \<and>
          length (row ! 0) = length date) \<and>
   (\<exists>row. build_csv_row (str ''2024-03-15'') amount partner = Inr row \<and>
          row ! 0 = str ''2024/03/15'') \<and>
   (\<exists>row. build_csv_row (str ''2024/3/1'') amount partner = Inr row \<and>
          row ! 0 = str ''2024/3/1'')"
  by (simp add: build_csv_row_eq replace_char_def CSV_COLUMNS_def date_label_def
        str_def hyphen_def slash_def)

theorem C6_date_cell_witness:
  "(\<exists>row. build_csv_row (str ''2023-1-09'') [] [] = Inr row \<and>
          CSV_COLUMNS ! 0 = date_label \<and>
          row ! 0 = str ''2023/1/09'' \<and>
          length (row ! 0) = 9)"
  using C6_date_cell [of "str ''2023-1-09''" "[]" "[]"]
  by (auto simp add: str_def hyphen_def slash_def)

text \<open>
  C7 (as amended). The date field is the first substring of the text that is a numeric
  date in which a digit is any decimal digit of Unicode (what \<open>\d\<close> matches in a
  \<open>str\<close> pattern: 0 to 9, and the full-width digits among others): four digits, a
  separator, one or two digits, a separator, one or two digits, each separator a slash
  or a hyphen. No such substring starts further left, and of those that start there it
  is the longest. It is taken as it stands, with no check of the calendar: 2024/13/45
  is the date field of a text that holds it. When no substring is such a date, the date
  field is the empty string. For a text whose decimal digits are all among 0 to 9 the
  same holds with the digits 0 to 9.
\<close>

theorem C7_date_first_match:
  "((\<exists>pre m post. tx = pre @ m @ post \<and> unicode_date_form m) \<longrightarrow>
      (\<exists>pre. first_match unicode_date_form tx pre (parsed_date (parse_info tx)))) \<and>
   (\<not> (\<exists>pre m post. tx = pre @ m @ post \<and> unicode_date_form m) \<longrightarrow>
      parsed_date (parse_info tx) = []) \<and>
   (list_all (\<lambda>c. unicode_decimal c \<longrightarrow> is_ascii_digit c) tx \<longrightarrow>
      ((\<exists>pre m post. tx = pre @ m @ post \<and> date_form m) \<longrightarrow>
         (\<exists>pre. first_match date_form tx pre (parsed_date (parse_info tx)))) \<and>
      (\<not> (\<exists>pre m post. tx = pre @ m @ post \<and> date_form m) \<longrightarrow>
         parsed_date (parse_info tx) = [])) \<and>
   date_form (str ''2024/13/45'') \<and>
   parsed_date (parse_info (str ''Due 2024/13/45.'')) = str ''2024/13/45''"
proof (intro conjI impI)
  assume "\<exists>pre m post. tx = pre @ m @ post \<and> unicode_date_form m"
  then show "\<exists>pre. first_match unicode_date_form tx pre (parsed_date (parse_info tx))"
    by (rule date_is_first_match)
next
  assume "\<not> (\<exists>pre m post. tx = pre @ m @ post \<and> unicode_date_form m)"
  then show "parsed_date (parse_info tx) = []" by (rule date_no_match)
next
  assume a: "list_all (\<lambda>c. unicode_decimal c \<longrightarrow> is_ascii_digit c) tx"
    and "\<exists>pre m post. tx = pre @ m @ post \<and> date_form m"
  then have "\<exists>pre m post. tx = pre @ m @ post \<and> unicode_date_form m"
    using date_form_unicode by blast
  then obtain pre where "first_match unicode_date_form tx pre (parsed_date (parse_info tx))"
    using date_is_first_match by blast
  moreover have "first_match unicode_date_form tx pre (parsed_date (parse_info tx)) =
      first_match date_form tx pre (parsed_date (parse_info tx))"
    using ascii_text_date_forms [OF a] by (intro first_match_cong) blast
  ultimately show "\<exists>pre. first_match date_form tx pre (parsed_date (parse_info tx))"
    by blast
next
  assume a: "list_all (\<lambda>c. unicode_decimal c \<longrightarrow> is_ascii_digit c) tx"
    and "\<not> (\<exists>pre m post. tx = pre @ m @ post \<and> date_form m)"
  then have "\<not> (\<exists>pre m post. tx = pre @ m @ post \<and> unicode_date_form m)"
    using ascii_text_date_forms [OF a] by blast
  then show "parsed_date (parse_info tx) = []" by (rule date_no_match)
next
  show "date_form (str ''2024/13/45'')"
    by (simp add: date_form_def date_shape_def is_date_sep_def is_ascii_digit_def eval_rules)
next
  show "parsed_date (parse_info (str ''Due 2024/13/45.'')) = str ''2024/13/45''"
    by (simp add: parsed_date_def eval_rules)
qed

theorem C7_date_first_match_witness:
  "first_match unicode_date_form (str ''Due 2024-3-15, not 2025/01/02'') (str ''Due '')
     (str ''2024-3-15'') \<and>
   parsed_date (parse_info (str ''Due 2024-3-15, not 2025/01/02'')) = str ''2024-3-15'' \<and>
   list_all (\<lambda>c. unicode_decimal c \<longrightarrow> is_ascii_digit c) (str ''Due 2024-3-15, not 2025/01/02'') \<and>
   (\<exists>pre. first_match date_form (str ''Due 2024-3-15, not 2025/01/02'') pre
      (parsed_date (parse_info (str ''Due 2024-3-15, not 2025/01/02'')))) \<and>
   \<not> (\<exists>pre m post. str ''no date, 2024'' = pre @ m @ post \<and> unicode_date_form m) \<and>
   parsed_date (parse_info (str ''no date, 2024'')) = []"
proof -
  have "search date_re (str ''Due 2024-3-15, not 2025/01/02'') = Some (4, str ''2024-3-15'')"
    by (simp add: eval_rules)
  then have "first_match unicode_date_form (str ''Due 2024-3-15, not 2025/01/02'')
      (take 4 (str ''Due 2024-3-15, not 2025/01/02'')) (str ''2024-3-15'')"
    by (rule search_date_first_match)
  then have f1: "first_match unicode_date_form (str ''Due 2024-3-15, not 2025/01/02'') (str ''Due '')
      (str ''2024-3-15'')"
    by (simp add: str_def)
  have "date_form (str ''2024-3-15'')"
    by (simp add: date_form_def date_shape_def is_date_sep_def is_ascii_digit_def eval_rules)
  moreover have "str ''Due 2024-3-15, not 2025/01/02'' =
      str ''Due '' @ str ''2024-3-15'' @ str '', not 2025/01/02''"
    by (simp add: str_def)
  ultimately have e1: "\<exists>pre m post. str ''Due 2024-3-15, not 2025/01/02'' = pre @ m @ post \<and>
      date_form m"
    by blast
  have p1: "parsed_date (parse_info (str ''Due 2024-3-15, not 2025/01/02'')) = str ''2024-3-15''"
    by (simp add: parsed_date_def eval_rules)
  have a1: "list_all (\<lambda>c. unicode_decimal c \<longrightarrow> is_ascii_digit c)
      (str ''Due 2024-3-15, not 2025/01/02'')"
    by (simp add: is_ascii_digit_def eval_rules)
  have "search date_re (str ''no date, 2024'') = None"
    by (simp add: eval_rules)
  then have n: "\<not> (\<exists>pre m post. str ''no date, 2024'' = pre @ m @ post \<and> unicode_date_form m)"
    by (rule search_date_no_match)
  show ?thesis
    using C7_date_first_match [of "str ''Due 2024-3-15, not 2025/01/02''"]
      C7_date_first_match [of "str ''no date, 2024''"] f1 e1 p1 a1 n
    by blast
qed

text \<open>
  The claim read with the digits 0 to 9 fails on a date written with full-width digits:
  the text holds no digit from 0 to 9, hence no date of that form
  (\<open>no_ascii_digit_no_date\<close>), and yet the whole text is the date field.
\<close>

theorem C7_counterexample:
  "parsed_date (parse_info [0xFF12, 0xFF10, 0xFF12, 0xFF14, 0x2F, 0xFF10, 0xFF13, 0x2F, 0xFF11, 0xFF15]) =
     [0xFF12, 0xFF10, 0xFF12, 0xFF14, 0x2F, 0xFF10, 0xFF13, 0x2F, 0xFF11, 0xFF15] \<and>
   \<not> list_ex is_ascii_digit [0xFF12, 0xFF10, 0xFF12, 0xFF14, 0x2F, 0xFF10, 0xFF13, 0x2F, 0xFF11, 0xFF15] \<and>
   \<not> date_form [0xFF12, 0xFF10, 0xFF12, 0xFF14, 0x2F, 0xFF10, 0xFF13, 0x2F, 0xFF11, 0xFF15]"
  by (simp add: parsed_date_def eval_rules is_ascii_digit_def date_form_def date_shape_def)

text \<open>
  C8. The row builder writes three cells and leaves the other 41 empty. The cells it
  writes are those at index 0, 15 and 33. Index 0 is under the date label and index 15
  under the debit-amount label, but index 33 is under the label of the counterparty
  code: the cell under the label of the counterparty name, index 34, which the
  source's comment names, stays empty, here for the partner ACME.
\<close>

theorem C8_partner_cell:
  "\<exists>row. build_csv_row (str ''2024-03-15'') (str ''12345'') (str ''ACME'') = Inr row \<and>
         CSV_COLUMNS ! 0 = date_label \<and> row ! 0 = str ''2024/03/15'' \<and>
         CSV_COLUMNS ! 15 = debit_amount_label \<and> row ! 15 = str ''12345'' \<and>
         CSV_COLUMNS ! 34 = counterparty_name_label \<and> row ! 34 = [] \<and>
         CSV_COLUMNS ! 33 = counterparty_code_label \<and> row ! 33 = str ''ACME'' \<and>
         list_all (\<lambda>i. row ! i = []) (filter (\<lambda>i. i \<noteq> 0 \<and> i \<noteq> 15 \<and> i \<noteq> 33) [0..<44])"
  by (simp add: build_csv_row_eq replace_char_def CSV_COLUMNS_def date_label_def
        debit_amount_label_def counterparty_name_label_def counterparty_code_label_def
        str_def hyphen_def slash_def upt_rec [of _ "numeral n" for n])

text \<open>
  C9. The parse and row-build stages keep no state between runs: in a batch that runs to
  its end, a file that occurs twice gets the same row both times, and two files with
  the same non-blank extracted text get the same row, which is the row built from the
  fields parsed from that text.
\<close>

theorem C9_same_input_same_row:
  "raised (process_pdfs t files) = None \<Longrightarrow> i < length files \<Longrightarrow> j < length files \<Longrightarrow>
     (files ! i = files ! j \<longrightarrow>
        rows (process_pdfs t files) ! Suc i = rows (process_pdfs t files) ! Suc j) \<and>
     (download_ok (files ! i) \<and> download_ok (files ! j) \<and>
      strip (extract_text_from_pdf (text_layer (files ! i))) \<noteq> [] \<and>
      extract_text_from_pdf (text_layer (files ! i)) =
        extract_text_from_pdf (text_layer (files ! j)) \<longrightarrow>
        parse_info (extract_text_from_pdf (text_layer (files ! i))) =
          parse_info (extract_text_from_pdf (text_layer (files ! j))) \<and>
        rows (process_pdfs t files) ! Suc i = rows (process_pdfs t files) ! Suc j \<and>
        Inr (rows (process_pdfs t files) ! Suc i) =
          (case parse_info (extract_text_from_pdf (text_layer (files ! i))) of
             (date, amount, partner) \<Rightarrow> build_csv_row date amount partner))"
proof -
  assume fin: "raised (process_pdfs t files) = None" and i: "i < length files"
    and j: "j < length files"
  from fin have "\<forall>f \<in> set files. written t f"
    unfolding process_pdfs_eq by (rule process_loop_raised_None)
  then have all: "\<forall>f \<in> set files. \<not> isl (snd (process_file t f))"
    by (simp add: written_row)
  from fin have r: "rows (process_pdfs t files) =
      CSV_COLUMNS # map (\<lambda>f. projr (snd (process_file t f))) files"
    by (rule process_pdfs_completed)
  have ri: "rows (process_pdfs t files) ! Suc i = projr (snd (process_file t (files ! i)))"
    using r i by simp
  have rj: "rows (process_pdfs t files) ! Suc j = projr (snd (process_file t (files ! j)))"
    using r j by simp
  have a: "files ! i = files ! j \<longrightarrow>
        rows (process_pdfs t files) ! Suc i = rows (process_pdfs t files) ! Suc j"
    using ri rj by simp
  have b: "parse_info (extract_text_from_pdf (text_layer (files ! i))) =
          parse_info (extract_text_from_pdf (text_layer (files ! j))) \<and>
        rows (process_pdfs t files) ! Suc i = rows (process_pdfs t files) ! Suc j \<and>
        Inr (rows (process_pdfs t files) ! Suc i) =
          (case parse_info (extract_text_from_pdf (text_layer (files ! i))) of
             (date, amount, partner) \<Rightarrow> build_csv_row date amount partner)"
    if h: "download_ok (files ! i)" "download_ok (files ! j)"
      "strip (extract_text_from_pdf (text_layer (files ! i))) \<noteq> []"
      "extract_text_from_pdf (text_layer (files ! i)) =
        extract_text_from_pdf (text_layer (files ! j))"
  proof -
    have pi: "snd (process_file t (files ! i)) =
        row_of_text (extract_text_from_pdf (text_layer (files ! i)))"
      using h by (simp add: process_file_direct)
    have pj: "snd (process_file t (files ! j)) =
        row_of_text (extract_text_from_pdf (text_layer (files ! i)))"
      using h by (simp add: process_file_direct)
    have "\<not> isl (snd (process_file t (files ! i)))"
      using all i by simp
    then have "Inr (projr (snd (process_file t (files ! i)))) = snd (process_file t (files ! i))"
      by (cases "snd (process_file t (files ! i))") simp_all
    with pi pj ri rj h(4) show ?thesis
      by (simp add: row_of_text_def)
  qed
  from a b show ?thesis by blast
qed

theorem C9_same_input_same_row_witness:
  "raised (process_pdfs \<lparr>grayscale = id, image_to_string = Some\<rparr>
       [\<lparr>download_ok = True, text_layer = Pages [PageText (str ''A 1'')],
         page_images = Some [[0, 200]]\<rparr>,
        \<lparr>download_ok = True, text_layer = Pages [PageText (str ''A 1'')],
         page_images = None\<rparr>]) = None \<and>
   rows (process_pdfs \<lparr>grayscale = id, image_to_string = Some\<rparr>
       [\<lparr>download_ok = True, text_layer = Pages [PageText (str ''A 1'')],
         page_images = Some [[0, 200]]\<rparr>,
        \<lparr>download_ok = True, text_layer = Pages [PageText (str ''A 1'')],
         page_images = None\<rparr>]) ! Suc 0 =
   rows (process_pdfs \<lparr>grayscale = id, image_to_string = Some\<rparr>
       [\<lparr>download_ok = True, text_layer = Pages [PageText (str ''A 1'')],
         page_images = Some [[0, 200]]\<rparr>,
        \<lparr>download_ok = True, text_layer = Pages [PageText (str ''A 1'')],
         page_images = None\<rparr>]) ! Suc 1"
  using C9_same_input_same_row [of "\<lparr>grayscale = id, image_to_string = Some\<rparr>"
       "[\<lparr>download_ok = True, text_layer = Pages [PageText (str ''A 1'')],
         page_images = Some [[0, 200]]\<rparr>,
        \<lparr>download_ok = True, text_layer = Pages [PageText (str ''A 1'')],
         page_images = None\<rparr>]" 0 1]
  by (simp add: process_pdfs_eq example_direct example_written)

text \<open>
  C10 (as amended). The amount search starts at the first ASCII digit of the text,
  whatever token that digit belongs to. When the run of digits that begins there has
  more than three digits, the amount is its first three digits; when it has at most
  three, ends the digits there and is not followed by a comma and three digits, the
  amount is the run. In both cases a monetary numeral later in the text is not reached.
\<close>

theorem C10_amount_from_first_digits:
  "tx = pre @ run @ rest \<Longrightarrow> list_all (\<lambda>c. \<not> is_ascii_digit c) pre \<Longrightarrow> run \<noteq> [] \<Longrightarrow>
   list_all is_ascii_digit run \<Longrightarrow>
     (3 < length run \<longrightarrow> parsed_amount (parse_info tx) = take 3 run) \<and>
     (length run \<le> 3 \<and> (rest = [] \<or> \<not> is_ascii_digit (hd rest)) \<and> \<not> group_follows rest \<longrightarrow>
        parsed_amount (parse_info tx) = run)"
proof -
  assume t: "tx = pre @ run @ rest" and pre: "list_all (\<lambda>c. \<not> is_ascii_digit c) pre"
    and ne: "run \<noteq> []" and dg: "list_all is_ascii_digit run"
  have long: "parsed_amount (parse_info tx) = take 3 run" if l: "3 < length run"
  proof -
    define s where "s = run @ rest"
    have l3: "lead3 s = 3" unfolding s_def using dg l by (rule lead3_long_run)
    have ls: "3 < length s" using l by (simp add: s_def)
    have "drop 3 run = run ! 3 # drop 4 run"
      using l Cons_nth_drop_Suc [of 3 run] by simp
    then have "drop 3 s = run ! 3 # drop 4 run @ rest"
      using l by (simp add: s_def)
    moreover have "is_ascii_digit (run ! 3)"
      using dg l by (simp add: list_all_length)
    ultimately have e: "eat_groups (drop 3 s) = drop 3 s"
      using comma_not_digit by (intro eat_groups_no_comma) auto
    have "search amount_re (pre @ s) =
        Some (length pre, take (length s - length (eat_groups (drop (lead3 s) s))) s)"
      using pre l3 by (intro search_amount_after_nondigits) simp_all
    with l3 e ls have "search amount_re (pre @ s) = Some (length pre, take 3 s)"
      by simp
    moreover have "take 3 s = take 3 run"
      using l by (simp add: s_def)
    ultimately have "search amount_re (pre @ s) = Some (length pre, take 3 run)"
      by simp
    moreover have "list_all is_ascii_digit (take 3 run)"
      using dg by (rule list_all_take)
    moreover have "tx = pre @ s"
      by (simp add: t s_def)
    ultimately show ?thesis
      by (simp add: parsed_amount_eq digits_no_comma)
  qed
  have short: "parsed_amount (parse_info tx) = run"
    if l: "length run \<le> 3" and r: "rest = [] \<or> \<not> is_ascii_digit (hd rest)"
      and g: "\<not> group_follows rest"
  proof -
    define s where "s = run @ rest"
    have l3: "lead3 s = length run"
      unfolding s_def using dg l r by (intro lead3_short_run) auto
    have e: "eat_groups rest = rest"
      using g by (rule eat_groups_no_group)
    have d: "drop (length run) s = rest" by (simp add: s_def)
    have "search amount_re (pre @ s) =
        Some (length pre, take (length s - length (eat_groups (drop (lead3 s) s))) s)"
      using pre l3 ne by (intro search_amount_after_nondigits) simp_all
    with l3 e d have "search amount_re (pre @ s) = Some (length pre, take (length s - length rest) s)"
      by simp
    moreover have "take (length s - length rest) s = run"
      by (simp add: s_def)
    ultimately have "search amount_re (pre @ s) = Some (length pre, run)"
      by simp
    moreover have "tx = pre @ s"
      by (simp add: t s_def)
    ultimately show ?thesis
      using dg by (simp add: parsed_amount_eq digits_no_comma)
  qed
  from long short show ?thesis by blast
qed

theorem C10_amount_from_first_digits_witness:
  "str ''2024/03/15 12,345'' = [] @ str ''2024'' @ str ''/03/15 12,345'' \<and>
   list_all is_ascii_digit (str ''2024'') \<and> 3 < length (str ''2024'') \<and>
   parsed_amount (parse_info (str ''2024/03/15 12,345'')) = str ''202'' \<and>
   str ''No 7, total 12,345'' = str ''No '' @ str ''7'' @ str '', total 12,345'' \<and>
   list_all (\<lambda>c. \<not> is_ascii_digit c) (str ''No '') \<and>
   \<not> is_ascii_digit (hd (str '', total 12,345'')) \<and>
   \<not> group_follows (str '', total 12,345'') \<and>
   parsed_amount (parse_info (str ''No 7, total 12,345'')) = str ''7''"
  using C10_amount_from_first_digits [of "str ''2024/03/15 12,345''" "[]" "str ''2024''"
      "str ''/03/15 12,345''"]
    C10_amount_from_first_digits [of "str ''No 7, total 12,345''" "str ''No ''" "str ''7''"
      "str '', total 12,345''"]
  by (simp add: str_def is_ascii_digit_def comma_def group_follows_def)

text \<open>
  The claim as stated fails on a text that begins with the date 2024/03/15: the amount
  is 202, not the digit run 2024.
\<close>

theorem C10_counterexample:
  "parsed_amount (parse_info (str ''2024/03/15 12,345'')) = str ''202'' \<and>
   parsed_amount (parse_info (str ''2024/03/15 12,345'')) \<noteq> str ''2024''"
  by (simp add: parsed_amount_def eval_rules)

end
